theory Spec2Isabelle
  imports Main "HOL-Library.Multiset" "HOL-Library.AList"
begin

section \<open>Text primitives of the JavaScript runtime\<close>

text \<open>
  The scripts work on JavaScript strings. A string is modelled as a list of code units
  below 256 (\<^typ>\<open>string\<close>); an index is a \<^typ>\<open>nat\<close>. Reading \<open>tex[i]\<close> beyond the end
  gives \<open>undefined\<close> in JavaScript and \<open>None\<close> here.
\<close>

definition char_at :: "string \<Rightarrow> nat \<Rightarrow> char option" where
  "char_at tex i = (if i < length tex then Some (tex ! i) else None)"

text \<open>\<open>tex.slice(a, b)\<close> for non-negative \<open>a\<close> and \<open>b\<close>: both ends are clamped to the
  length, and an empty string results when \<open>b \<le> a\<close>.\<close>

definition slice :: "string \<Rightarrow> nat \<Rightarrow> nat \<Rightarrow> string" where
  "slice tex a b = take (b - a) (drop a tex)"

text \<open>The class \<open>\s\<close> on code units below 256: tab, line feed, vertical tab, form feed,
  carriage return, space and no-break space.\<close>

definition is_space :: "char \<Rightarrow> bool" where
  "is_space c = (c = CHR 0x09 \<or> c = CHR 0x0A \<or> c = CHR 0x0B \<or> c = CHR 0x0C
     \<or> c = CHR 0x0D \<or> c = CHR 0x20 \<or> c = CHR 0xA0)"

text \<open>The class \<open>[A-Za-z]\<close>.\<close>

definition is_alpha :: "char \<Rightarrow> bool" where
  "is_alpha c = (let n = (of_char c :: nat) in (65 \<le> n \<and> n \<le> 90) \<or> (97 \<le> n \<and> n \<le> 122))"

text \<open>The class \<open>[A-Za-z0-9_-]\<close>.\<close>

definition is_name_char :: "char \<Rightarrow> bool" where
  "is_name_char c = (let n = (of_char c :: nat) in
     is_alpha c \<or> (48 \<le> n \<and> n \<le> 57) \<or> c = CHR ''_'' \<or> c = CHR ''-'')"

text \<open>\<open>String.prototype.trim\<close> removes the same class \<open>\s\<close> at both ends.\<close>

definition trim :: "string \<Rightarrow> string" where
  "trim s = rev (dropWhile is_space (rev (dropWhile is_space s)))"

text \<open>\<open>String.prototype.toLowerCase\<close> on code units below 256: the letters \<open>A-Z\<close> and the
  capitals \<open>0xC0-0xDE\<close> (without the multiplication sign \<open>0xD7\<close>) move up by 32.\<close>

definition lower_char :: "char \<Rightarrow> char" where
  "lower_char c = (let n = (of_char c :: nat) in
     if (65 \<le> n \<and> n \<le> 90) \<or> (192 \<le> n \<and> n \<le> 222 \<and> n \<noteq> 215)
     then char_of (n + 32) else c)"

definition toLowerCase :: "string \<Rightarrow> string" where
  "toLowerCase s = map lower_char s"

text \<open>A scanning loop \<open>while (i < tex.length && p(tex[i])) i += 1\<close>; its result is the
  final value of \<open>i\<close>.\<close>

function skip_while :: "(char \<Rightarrow> bool) \<Rightarrow> string \<Rightarrow> nat \<Rightarrow> nat" where
  "skip_while p tex i = (if i < length tex \<and> p (tex ! i) then skip_while p tex (i + 1) else i)"
  by pat_completeness auto
termination
  by (relation "measure (\<lambda>(p, tex, i). length tex - i)") auto

declare skip_while.simps [simp del]

section \<open>readBibValue\<close>

text \<open>The brace branch: \<open>depth\<close> counts open braces, and the loop leaves one past the
  closing brace that brings the depth back to zero, or at the end of the text.\<close>

function read_braces :: "string \<Rightarrow> nat \<Rightarrow> int \<Rightarrow> nat" where
  "read_braces tex i depth =
     (if i < length tex then
        (if tex ! i = CHR ''{'' then read_braces tex (i + 1) (depth + 1)
         else if tex ! i = CHR ''}'' then
           (if depth - 1 = 0 then i + 1 else read_braces tex (i + 1) (depth - 1))
         else read_braces tex (i + 1) depth)
      else i)"
  by pat_completeness auto
termination
  by (relation "measure (\<lambda>(tex, i, depth). length tex - i)") auto

declare read_braces.simps [simp del]

text \<open>The quote branch: the loop stops at a double quote whose predecessor is not a
  backslash, or at the end of the text.\<close>

function read_quoted :: "string \<Rightarrow> nat \<Rightarrow> nat" where
  "read_quoted tex i =
     (if i < length tex then
        (if tex ! i = CHR 0x22 \<and> char_at tex (i - 1) \<noteq> Some (CHR 0x5C) then i
         else read_quoted tex (i + 1))
      else i)"
  by pat_completeness auto
termination
  by (relation "measure (\<lambda>(tex, i). length tex - i)") auto

declare read_quoted.simps [simp del]

text \<open>The object \<open>{ value, next }\<close> is the pair \<open>(value, next)\<close>.\<close>

definition readBibValue :: "string \<Rightarrow> nat \<Rightarrow> string \<times> nat" where
  "readBibValue tex start =
     (if char_at tex start = Some (CHR ''{'') then
        (let i = read_braces tex start 0 in (slice tex start i, i))
      else if char_at tex start = Some (CHR 0x22) then
        (let valueStart = start + 1;
             i = read_quoted tex valueStart;
             v = slice tex valueStart i
         in (v, if char_at tex i = Some (CHR 0x22) then i + 1 else i))
      else
        (let i = skip_while (\<lambda>c. c \<noteq> CHR '','' \<and> c \<noteq> CHR ''}'') tex start
         in (slice tex start i, i)))"

text \<open>The nesting depth of a piece of text: opening minus closing braces.\<close>

definition brace_depth :: "string \<Rightarrow> int" where
  "brace_depth s = int (count_list s (CHR ''{'')) - int (count_list s (CHR ''}''))"

text \<open>A brace-delimited value starting at \<open>start\<close> is unterminated when no piece of the
  text from \<open>start\<close> on is balanced.\<close>

definition unterminated_braces :: "string \<Rightarrow> nat \<Rightarrow> bool" where
  "unterminated_braces tex start =
     (char_at tex start = Some (CHR ''{'') \<and>
      (\<forall>k \<in> {start + 1 .. length tex}. brace_depth (slice tex start k) \<noteq> 0))"

text \<open>A quote-delimited value starting at \<open>start\<close> is unterminated when every later
  double quote follows a backslash.\<close>

definition unterminated_quote :: "string \<Rightarrow> nat \<Rightarrow> bool" where
  "unterminated_quote tex start =
     (char_at tex start = Some (CHR 0x22) \<and>
      (\<forall>j \<in> {start + 1 ..< length tex}. tex ! j = CHR 0x22 \<longrightarrow> tex ! (j - 1) = CHR 0x5C))"

section \<open>Properties of the scanning loops\<close>

lemma skip_while_ge: "i \<le> skip_while p tex i"
proof (induction p tex i rule: skip_while.induct)
  case (1 p tex i)
  show ?case
  proof (cases "i < length tex \<and> p (tex ! i)")
    case True
    then have "skip_while p tex i = skip_while p tex (i + 1)" by (subst skip_while.simps) simp
    with 1 True show ?thesis by simp
  next
    case False
    then show ?thesis by (subst skip_while.simps) auto
  qed
qed

lemma skip_while_le: "i \<le> length tex \<Longrightarrow> skip_while p tex i \<le> length tex"
proof (induction p tex i rule: skip_while.induct)
  case (1 p tex i)
  show ?case
  proof (cases "i < length tex \<and> p (tex ! i)")
    case True
    then have "skip_while p tex i = skip_while p tex (i + 1)" by (subst skip_while.simps) simp
    with 1 True show ?thesis by simp
  next
    case False
    with 1 show ?thesis by (subst skip_while.simps) auto
  qed
qed

lemma skip_while_beyond: "length tex \<le> i \<Longrightarrow> skip_while p tex i = i"
  by (subst skip_while.simps) simp

lemma read_braces_ge: "i \<le> read_braces tex i d"
proof (induction tex i d rule: read_braces.induct)
  case (1 tex i depth)
  then show ?case
    by (subst read_braces.simps) (auto simp: le_Suc_eq dest: Suc_leD)
qed

lemma read_braces_le: "i \<le> length tex \<Longrightarrow> read_braces tex i d \<le> length tex"
proof (induction tex i d rule: read_braces.induct)
  case (1 tex i depth)
  then show ?case
    by (subst read_braces.simps) auto
qed

lemma read_braces_beyond: "length tex \<le> i \<Longrightarrow> read_braces tex i d = i"
  by (subst read_braces.simps) simp

lemma read_quoted_ge: "i \<le> read_quoted tex i"
proof (induction tex i rule: read_quoted.induct)
  case (1 tex i)
  then show ?case
    by (subst read_quoted.simps) (auto dest: Suc_leD)
qed

lemma read_quoted_le: "i \<le> length tex \<Longrightarrow> read_quoted tex i \<le> length tex"
proof (induction tex i rule: read_quoted.induct)
  case (1 tex i)
  then show ?case
    by (subst read_quoted.simps) auto
qed

lemma read_quoted_beyond: "length tex \<le> i \<Longrightarrow> read_quoted tex i = i"
  by (subst read_quoted.simps) simp

lemma slice_step:
  assumes "i < length tex" "i < k"
  shows "slice tex i k = tex ! i # slice tex (i + 1) k"
proof -
  from assms obtain m where k: "k - i = Suc m" by (cases "k - i") auto
  then have "k - (i + 1) = m" by simp
  with k assms show ?thesis
    by (simp add: slice_def Cons_nth_drop_Suc [symmetric])
qed

lemma brace_depth_Cons:
  "brace_depth (c # s) = (if c = CHR ''{'' then 1 else if c = CHR ''}'' then - 1 else 0) + brace_depth s"
  by (simp add: brace_depth_def)

lemma slice_empty [simp]: "slice tex i i = []"
  by (simp add: slice_def)

lemma brace_depth_Nil [simp]: "brace_depth [] = 0"
  by (simp add: brace_depth_def)

lemma read_braces_unterminated:
  "i \<le> length tex \<Longrightarrow> \<forall>k \<in> {i + 1 .. length tex}. d + brace_depth (slice tex i k) \<noteq> 0
     \<Longrightarrow> read_braces tex i d = length tex"
proof (induction tex i d rule: read_braces.induct)
  case (1 tex i depth)
  show ?case
  proof (cases "i < length tex")
    case False
    with 1(4) show ?thesis by (subst read_braces.simps) simp
  next
    case True
    have step: "\<And>k. k \<in> {i + 1 + 1 .. length tex} \<Longrightarrow>
       brace_depth (slice tex i k) = brace_depth [tex ! i] + brace_depth (slice tex (i + 1) k)"
      using True by (simp add: slice_step brace_depth_Cons)
    have one: "depth + brace_depth [tex ! i] \<noteq> 0"
      using 1(5) True by (auto simp: slice_step dest!: bspec [where x = "i + 1"])
    have rest: "\<forall>k \<in> {i + 1 + 1 .. length tex}.
       depth + brace_depth [tex ! i] + brace_depth (slice tex (i + 1) k) \<noteq> 0"
    proof
      fix k assume k: "k \<in> {i + 1 + 1 .. length tex}"
      then have "k \<in> {i + 1 .. length tex}" by simp
      with 1(5) have "depth + brace_depth (slice tex i k) \<noteq> 0" by blast
      with step [OF k] show "depth + brace_depth [tex ! i] + brace_depth (slice tex (i + 1) k) \<noteq> 0"
        by simp
    qed
    show ?thesis
    proof (cases "tex ! i = CHR ''{''")
      case opn: True
      with rest opn have "\<forall>k \<in> {i + 1 + 1 .. length tex}. depth + 1 + brace_depth (slice tex (i + 1) k) \<noteq> 0"
        by (simp add: brace_depth_Cons)
      with 1(1) [OF True opn] True have "read_braces tex (i + 1) (depth + 1) = length tex" by simp
      with True opn show ?thesis by (subst read_braces.simps) simp
    next
      case nopen: False
      show ?thesis
      proof (cases "tex ! i = CHR ''}''")
        case close: True
        with one have ne: "depth - 1 \<noteq> 0" by (simp add: brace_depth_Cons)
        from rest close have "\<forall>k \<in> {i + 1 + 1 .. length tex}. depth - 1 + brace_depth (slice tex (i + 1) k) \<noteq> 0"
          by (simp add: brace_depth_Cons)
        with 1(2) [OF True nopen close ne] True have "read_braces tex (i + 1) (depth - 1) = length tex" by simp
        with True nopen close ne show ?thesis by (subst read_braces.simps) simp
      next
        case nclose: False
        from rest nopen nclose have "\<forall>k \<in> {i + 1 + 1 .. length tex}. depth + brace_depth (slice tex (i + 1) k) \<noteq> 0"
          by (simp add: brace_depth_Cons)
        with 1(3) [OF True nopen nclose] True have "read_braces tex (i + 1) depth = length tex" by simp
        with True nopen nclose show ?thesis by (subst read_braces.simps) simp
      qed
    qed
  qed
qed

lemma read_quoted_unterminated:
  "i \<le> length tex \<Longrightarrow> 0 < i \<Longrightarrow> \<forall>j \<in> {i ..< length tex}. tex ! j = CHR 0x22 \<longrightarrow> tex ! (j - 1) = CHR 0x5C
     \<Longrightarrow> read_quoted tex i = length tex"
proof (induction tex i rule: read_quoted.induct)
  case (1 tex i)
  show ?case
  proof (cases "i < length tex")
    case False
    with 1(2) show ?thesis by (subst read_quoted.simps) simp
  next
    case True
    with 1(3,4) have stay: "\<not> (tex ! i = CHR 0x22 \<and> char_at tex (i - 1) \<noteq> Some (CHR 0x5C))"
      by (auto simp: char_at_def)
    from 1(4) have "\<forall>j \<in> {i + 1 ..< length tex}. tex ! j = CHR 0x22 \<longrightarrow> tex ! (j - 1) = CHR 0x5C"
      by simp
    with 1(1) [OF True stay] True have "read_quoted tex (i + 1) = length tex" by simp
    with True stay show ?thesis by (subst read_quoted.simps) simp
  qed
qed

lemma ball_interval_upt: "(\<forall>k \<in> {a .. b}. P k) = list_all P [a ..< Suc b]"
  by (auto simp: list_all_iff)

lemma ball_interval_less_upt: "(\<forall>k \<in> {a ..< b}. P k) = list_all P [a ..< b]"
  by (auto simp: list_all_iff)

lemma slice_to_end: "slice tex a (length tex) = drop a tex"
  by (simp add: slice_def)

text \<open>
  Claim C8. For every text and every start position \<open>readBibValue\<close> returns a pair of a
  value and a next cursor, and the cursor never moves backwards; it has no failing branch.
  An unterminated brace-delimited value, and an unterminated quote-delimited value, is
  read through to the end of the text.
\<close>

theorem readBibValue_never_throws:
  "(\<exists>v n. readBibValue tex start = (v, n) \<and> start \<le> n \<and> (n \<le> length tex \<or> n = start))
   \<and> (unterminated_braces tex start \<longrightarrow> readBibValue tex start = (drop start tex, length tex))
   \<and> (unterminated_quote tex start \<longrightarrow> readBibValue tex start = (drop (start + 1) tex, length tex))"
proof (intro conjI impI)
  show "\<exists>v n. readBibValue tex start = (v, n) \<and> start \<le> n \<and> (n \<le> length tex \<or> n = start)"
  proof (cases "start \<le> length tex")
    case True
    then show ?thesis
      using read_braces_ge [of start tex 0] read_braces_le [of start tex 0]
        read_quoted_ge [of "start + 1" tex] read_quoted_le [of "start + 1" tex]
        skip_while_ge [of start "\<lambda>c. c \<noteq> CHR '','' \<and> c \<noteq> CHR ''}''" tex]
        skip_while_le [of start tex "\<lambda>c. c \<noteq> CHR '','' \<and> c \<noteq> CHR ''}''"]
      by (auto simp: readBibValue_def Let_def char_at_def)
  next
    case False
    then show ?thesis
      by (simp add: readBibValue_def Let_def char_at_def skip_while_beyond)
  qed
next
  assume u: "unterminated_braces tex start"
  then have lt: "start < length tex" by (auto simp: unterminated_braces_def char_at_def split: if_splits)
  from u have "read_braces tex start 0 = length tex"
    by (intro read_braces_unterminated) (use lt in \<open>auto simp: unterminated_braces_def\<close>)
  with u show "readBibValue tex start = (drop start tex, length tex)"
    by (simp add: readBibValue_def unterminated_braces_def slice_to_end)
next
  assume u: "unterminated_quote tex start"
  then have lt: "start < length tex" by (auto simp: unterminated_quote_def char_at_def split: if_splits)
  from u have "read_quoted tex (start + 1) = length tex"
    by (intro read_quoted_unterminated) (use lt in \<open>auto simp: unterminated_quote_def\<close>)
  with u show "readBibValue tex start = (drop (start + 1) tex, length tex)"
    by (simp add: readBibValue_def unterminated_quote_def slice_to_end char_at_def)
qed

theorem readBibValue_never_throws_witness:
  "unterminated_braces ''x = {a{b}c'' 4
   \<and> readBibValue ''x = {a{b}c'' 4 = (''{a{b}c'', 10)
   \<and> unterminated_quote [CHR ''x'', CHR ''='', CHR 0x22, CHR ''a'', CHR 0x5C, CHR 0x22, CHR ''c''] 2
   \<and> readBibValue [CHR ''x'', CHR ''='', CHR 0x22, CHR ''a'', CHR 0x5C, CHR 0x22, CHR ''c''] 2
       = ([CHR ''a'', CHR 0x5C, CHR 0x22, CHR ''c''], 7)"
proof -
  have b: "unterminated_braces ''x = {a{b}c'' 4"
    unfolding unterminated_braces_def ball_interval_upt by code_simp
  have q: "unterminated_quote [CHR ''x'', CHR ''='', CHR 0x22, CHR ''a'', CHR 0x5C, CHR 0x22, CHR ''c''] 2"
    unfolding unterminated_quote_def ball_interval_less_upt by code_simp
  from b readBibValue_never_throws [of "''x = {a{b}c''" 4]
  have rb: "readBibValue ''x = {a{b}c'' 4 = (''{a{b}c'', 10)"
    by simp
  from q readBibValue_never_throws
    [of "[CHR ''x'', CHR ''='', CHR 0x22, CHR ''a'', CHR 0x5C, CHR 0x22, CHR ''c'']" 2]
  have rq: "readBibValue [CHR ''x'', CHR ''='', CHR 0x22, CHR ''a'', CHR 0x5C, CHR 0x22, CHR ''c''] 2
       = ([CHR ''a'', CHR 0x5C, CHR 0x22, CHR ''c''], 7)"
    by simp
  from b q rb rq show ?thesis by blast
qed

section \<open>parseBib\<close>

lemma readBibValue_next_ge: "start \<le> snd (readBibValue tex start)"
  using read_braces_ge [of start tex 0] read_quoted_ge [of "start + 1" tex]
    skip_while_ge [of start "\<lambda>c. c \<noteq> CHR '','' \<and> c \<noteq> CHR ''}''" tex]
  by (auto simp: readBibValue_def Let_def)

lemma readBibValue_next_le: "start \<le> length tex \<Longrightarrow> snd (readBibValue tex start) \<le> length tex"
  using read_braces_le [of start tex 0] read_quoted_le [of "start + 1" tex]
    skip_while_le [of start tex "\<lambda>c. c \<noteq> CHR '','' \<and> c \<noteq> CHR ''}''"]
  by (auto simp: readBibValue_def Let_def char_at_def)

text \<open>
  An entry is the object \<open>{ type, key, fields }\<close>. The \<open>fields\<close> object is an association
  list of own properties in insertion order; the scripts never observe that order except
  through a sort of the names.
\<close>

type_synonym fields = "(string \<times> string) list"

record entry =
  type :: string
  key :: string
  efields :: fields

text \<open>
  The assignment \<open>fields[name] = v\<close> on an object created by \<open>{}\<close>: an own property is
  updated in place or appended. The name \<open>__proto__\<close> is the inherited accessor of
  \<open>Object.prototype\<close>, whose setter ignores a string, so that assignment changes nothing.
\<close>

definition obj_set :: "fields \<Rightarrow> string \<Rightarrow> string \<Rightarrow> fields" where
  "obj_set f name v = (if name = ''__proto__'' then f else AList.update name v f)"

text \<open>\<open>tex.indexOf(c, i)\<close>: the first index from \<open>i\<close> on that holds \<open>c\<close>; \<open>None\<close> stands
  for \<open>-1\<close>.\<close>

definition indexOf :: "string \<Rightarrow> char \<Rightarrow> nat \<Rightarrow> nat option" where
  "indexOf tex c i = find (\<lambda>j. tex ! j = c) [i ..< length tex]"

text \<open>
  The inner loop of \<open>parseBib\<close> that reads \<open>name = value\<close> pairs. It returns the cursor and
  the fields object when the loop is left: after the closing brace, at a name that is not
  followed by \<open>=\<close>, or at the end of the text.
\<close>

function parse_fields :: "string \<Rightarrow> nat \<Rightarrow> fields \<Rightarrow> nat \<times> fields" where
  "parse_fields tex i fs =
     (if i < length tex then
        (let i1 = skip_while (\<lambda>c. is_space c \<or> c = CHR '','') tex i in
         if char_at tex i1 = Some (CHR ''}'') then (i1 + 1, fs)
         else
           (let i2 = skip_while is_name_char tex i1;
                name = toLowerCase (slice tex i1 i2);
                i3 = skip_while is_space tex i2
            in if char_at tex i3 \<noteq> Some (CHR ''='') then (i3, fs)
               else
                 (let i4 = skip_while is_space tex (i3 + 1);
                      (v, next) = readBibValue tex i4
                  in parse_fields tex next (obj_set fs name (trim v)))))
      else (i, fs))"
  by pat_completeness auto
termination
proof (relation "measure (\<lambda>(tex, i, fs). length tex - i)", goal_cases)
  case 1
  show ?case by simp
next
  case (2 tex i fs i1 i2 name i3 i4 x v nxt)
  have "i \<le> i1" using 2 skip_while_ge by simp
  also have "i1 \<le> i2" using 2 skip_while_ge by simp
  also have "i2 \<le> i3" using 2 skip_while_ge by simp
  also have "i3 < i3 + 1" by simp
  also have "i3 + 1 \<le> i4" using 2 skip_while_ge by simp
  also have "i4 \<le> nxt" using 2 readBibValue_next_ge [of i4 tex] by (metis snd_conv)
  finally show ?case using 2 by simp
qed

declare parse_fields.simps [simp del]

text \<open>
  One iteration of the outer loop after \<open>i = at + 1\<close>: the cursor reached, and the entry
  pushed, if any (\<open>None\<close> for the two \<open>continue\<close> exits).
\<close>

definition parse_record :: "string \<Rightarrow> nat \<Rightarrow> nat \<times> entry option" where
  "parse_record tex start =
     (let i = skip_while is_space tex start;
          typeStart = i;
          i = skip_while is_alpha tex i;
          ty = toLowerCase (slice tex typeStart i);
          i = skip_while is_space tex i
      in if char_at tex i \<noteq> Some (CHR ''{'') then (i, None)
         else
           (let i = i + 1;
                i = skip_while is_space tex i;
                keyStart = i;
                i = skip_while (\<lambda>c. c \<noteq> CHR '','') tex i;
                k = trim (slice tex keyStart i)
            in if char_at tex i \<noteq> Some (CHR '','') then (i, None)
               else
                 (let (i, fs) = parse_fields tex (i + 1) []
                  in (i, Some \<lparr>type = ty, key = k, efields = fs\<rparr>))))"

text \<open>The outer loop; a run that never ends would be the value \<open>None\<close>.\<close>

partial_function (option) parse_loop :: "string \<Rightarrow> nat \<Rightarrow> entry list \<Rightarrow> entry list option" where
  "parse_loop tex i entries =
     (if i < length tex then
        (case indexOf tex (CHR ''@'') i of
           None \<Rightarrow> Some entries
         | Some at \<Rightarrow>
             (case parse_record tex (at + 1) of
                (i', None) \<Rightarrow> parse_loop tex i' entries
              | (i', Some e) \<Rightarrow> parse_loop tex i' (entries @ [e])))
      else Some entries)"

declare parse_loop.simps [code]

definition parseBib :: "string \<Rightarrow> entry list option" where
  "parseBib tex = parse_loop tex 0 []"


lemma parse_fields_ge: "i \<le> fst (parse_fields tex i fs)"
proof (induction tex i fs rule: parse_fields.induct)
  case (1 tex i fs)
  let ?i1 = "skip_while (\<lambda>c. is_space c \<or> c = CHR '','') tex i"
  let ?i2 = "skip_while is_name_char tex ?i1"
  let ?i3 = "skip_while is_space tex ?i2"
  let ?i4 = "skip_while is_space tex (?i3 + 1)"
  let ?name = "toLowerCase (slice tex ?i1 ?i2)"
  have c: "i \<le> ?i1" "?i1 \<le> ?i2" "?i2 \<le> ?i3" "?i3 + 1 \<le> ?i4"
    "?i4 \<le> snd (readBibValue tex ?i4)"
    by (rule skip_while_ge readBibValue_next_ge)+
  show ?case
  proof (cases "i < length tex \<and> char_at tex ?i1 \<noteq> Some (CHR ''}'')
      \<and> char_at tex ?i3 = Some (CHR ''='')")
    case True
    obtain v nxt where r: "readBibValue tex ?i4 = (v, nxt)" by (cases "readBibValue tex ?i4")
    from True r have eq: "parse_fields tex i fs = parse_fields tex nxt (obj_set fs ?name (trim v))"
      by (subst parse_fields.simps) (simp add: Let_def)
    from True r have "nxt \<le> fst (parse_fields tex nxt (obj_set fs ?name (trim v)))"
      by (intro 1 [OF _ refl _ refl refl refl _ refl, of _ v]) (auto simp: Let_def)
    with c r eq show ?thesis by simp
  next
    case False
    with c show ?thesis
      by (subst parse_fields.simps) (auto simp: Let_def)
  qed
qed

lemma parse_record_ge: "start \<le> fst (parse_record tex start)"
proof -
  let ?a = "skip_while is_space tex start"
  let ?b = "skip_while is_alpha tex ?a"
  let ?c = "skip_while is_space tex ?b"
  let ?d = "skip_while is_space tex (?c + 1)"
  let ?e = "skip_while (\<lambda>c. c \<noteq> CHR '','') tex ?d"
  have "start \<le> ?a" "?a \<le> ?b" "?b \<le> ?c" "?c + 1 \<le> ?d" "?d \<le> ?e"
    "?e + 1 \<le> fst (parse_fields tex (?e + 1) [])"
    by (rule skip_while_ge parse_fields_ge)+
  then show ?thesis
    by (auto simp: parse_record_def Let_def split: prod.splits)
qed

lemma indexOf_Some: "indexOf tex c i = Some at \<Longrightarrow> i \<le> at \<and> at < length tex \<and> tex ! at = c"
  by (auto simp: indexOf_def find_Some_iff)

lemma parse_loop_total: "\<exists>es. parse_loop tex i acc = Some es"
proof (induction "length tex - i" arbitrary: i acc rule: less_induct)
  case less
  show ?case
  proof (cases "i < length tex")
    case False
    then show ?thesis by (subst parse_loop.simps) simp
  next
    case True
    show ?thesis
    proof (cases "indexOf tex (CHR ''@'') i")
      case None
      with True show ?thesis by (subst parse_loop.simps) simp
    next
      case (Some at)
      obtain i' r where pr: "parse_record tex (at + 1) = (i', r)"
        by (cases "parse_record tex (at + 1)")
      from indexOf_Some [OF Some] parse_record_ge [of "at + 1" tex] pr have "i < i'" by simp
      with True have "length tex - i' < length tex - i" by simp
      from less [OF this] have "\<And>acc. \<exists>es. parse_loop tex i' acc = Some es" by simp
      with True Some pr show ?thesis
        by (subst parse_loop.simps) (simp split: option.splits)
    qed
  qed
qed

text \<open>
  Claim C9. For every input text \<open>parseBib\<close> returns an entry list, and every iteration
  of its outer loop that finds an \<open>@\<close> leaves the cursor strictly beyond where the
  iteration started.
\<close>

theorem parseBib_terminates:
  "(\<exists>entries. parseBib tex = Some entries)
   \<and> (\<forall>i at. i < length tex \<and> indexOf tex (CHR ''@'') i = Some at
         \<longrightarrow> i < fst (parse_record tex (at + 1)))"
proof (intro conjI allI impI)
  show "\<exists>entries. parseBib tex = Some entries"
    unfolding parseBib_def by (rule parse_loop_total)
next
  fix i at
  assume "i < length tex \<and> indexOf tex (CHR ''@'') i = Some at"
  then have "i \<le> at" using indexOf_Some by blast
  with parse_record_ge [of "at + 1" tex] show "i < fst (parse_record tex (at + 1))" by simp
qed

theorem parseBib_terminates_witness:
  "2 < length ''x @a{k,y=1} @'' \<and> indexOf ''x @a{k,y=1} @'' (CHR ''@'') 2 = Some 2
   \<and> 2 < fst (parse_record ''x @a{k,y=1} @'' (2 + 1))
   \<and> (\<exists>entries. parseBib ''x @a{k,y=1} @'' = Some entries)"
proof -
  have h: "2 < length ''x @a{k,y=1} @'' \<and> indexOf ''x @a{k,y=1} @'' (CHR ''@'') 2 = Some 2"
    by code_simp
  with parseBib_terminates [of "''x @a{k,y=1} @''"] show ?thesis by blast
qed

section \<open>bibToText and cleanEntries\<close>

text \<open>The loop \<open>while (out.startsWith("{") && out.endsWith("}")) out = out.slice(1, -1).trim()\<close>.\<close>

function strip_braces :: "string \<Rightarrow> string" where
  "strip_braces out =
     (if out \<noteq> [] \<and> hd out = CHR ''{'' \<and> last out = CHR ''}''
      then strip_braces (trim (butlast (tl out))) else out)"
  by pat_completeness auto

lemma length_trim_le: "length (trim s) \<le> length s"
proof -
  have "length (trim s) \<le> length (dropWhile is_space s)"
    unfolding trim_def by (metis length_dropWhile_le length_rev)
  also have "\<dots> \<le> length s" by (rule length_dropWhile_le)
  finally show ?thesis .
qed

termination strip_braces
proof (relation "measure length", goal_cases)
  case 1
  show ?case by simp
next
  case (2 out)
  have "length (trim (butlast (tl out))) \<le> length (butlast (tl out))" by (rule length_trim_le)
  also have "\<dots> < length out" using 2 by (cases out) auto
  finally show ?case by simp
qed

declare strip_braces.simps [simp del]

text \<open>\<open>replace(/\\c/g, c)\<close> for one escaped character \<open>c\<close>: every backslash followed by
  \<open>c\<close> becomes \<open>c\<close>, scanning from the left without overlap.\<close>

fun replace_escape :: "char \<Rightarrow> string \<Rightarrow> string" where
  "replace_escape c (a # b # rest) =
     (if a = CHR 0x5C \<and> b = c then c # replace_escape c rest
      else a # replace_escape c (b # rest))"
| "replace_escape c s = s"

text \<open>\<open>replace(/\s+/g, " ")\<close>: every maximal run of white space becomes one space.\<close>

function collapse_spaces :: "string \<Rightarrow> string" where
  "collapse_spaces [] = []"
| "collapse_spaces (c # rest) =
     (if is_space c then CHR '' '' # collapse_spaces (dropWhile is_space rest)
      else c # collapse_spaces rest)"
  by pat_completeness auto
termination
  by (relation "measure length") (auto simp: le_imp_less_Suc length_dropWhile_le)

definition bibToText :: "string \<Rightarrow> string" where
  "bibToText v =
     (if v = [] then []
      else trim (collapse_spaces (replace_escape (CHR ''%'') (replace_escape (CHR '','')
             (replace_escape (CHR ''&'') (filter (\<lambda>c. c \<noteq> CHR ''{'' \<and> c \<noteq> CHR ''}'')
               (strip_braces (trim v))))))))"


text \<open>The denylist of each script: \<open>DROP_FIELDS\<close> of the newer script, and of
  \<open>scripts/sync-publications.mjs\<close>, which also drops \<open>abstract\<close>.\<close>

definition DROP_FIELDS :: "string list" where
  "DROP_FIELDS = [''file'', ''langid'', ''urldate'', ''shortjournal'', ''issue'']"

definition DROP_FIELDS_sync :: "string list" where
  "DROP_FIELDS_sync = [''abstract'', ''file'', ''langid'', ''urldate'', ''shortjournal'', ''issue'']"

text \<open>A property read \<open>entry.fields.name\<close>. Every read in the scripts only tests the
  value for truthiness or falls back with \<open>||\<close>, so \<open>undefined\<close> and the empty string are
  both the empty string here.\<close>

definition fld :: "entry \<Rightarrow> string \<Rightarrow> string" where
  "fld e name = (case map_of (efields e) name of None \<Rightarrow> [] | Some v \<Rightarrow> v)"

text \<open>The body of the \<open>map\<close> in \<open>cleanEntries\<close>: the loop over \<open>Object.entries\<close> that builds
  the new fields object, and the copy \<open>{ ...entry, fields }\<close>.\<close>

definition clean_fields :: "string list \<Rightarrow> fields \<Rightarrow> fields" where
  "clean_fields dropped fs =
     foldl (\<lambda>acc (name, rawValue).
        if name \<in> set dropped then acc
        else (let normalized = bibToText rawValue
              in if normalized = [] then acc else obj_set acc name normalized)) [] fs"

definition clean_entry :: "string list \<Rightarrow> entry \<Rightarrow> entry" where
  "clean_entry dropped e = e\<lparr>efields := clean_fields dropped (efields e)\<rparr>"

definition getYear :: "entry \<Rightarrow> string" where
  "getYear e =
     (if fld e ''year'' \<noteq> [] then fld e ''year''
      else if fld e ''date'' \<noteq> [] then take 4 (fld e ''date'')
      else ''Unknown'')"

text \<open>
  \<open>Number(getYear(e)) || 0\<close>. The conversion \<open>Number\<close> of the runtime is a parameter: it
  returns \<open>None\<close> for \<open>NaN\<close> and otherwise a value of a linearly ordered type with zero.
\<close>

definition year_number :: "(string \<Rightarrow> 'n option) \<Rightarrow> entry \<Rightarrow> 'n::{linorder,zero}" where
  "year_number Number e = (case Number (getYear e) of None \<Rightarrow> 0 | Some n \<Rightarrow> n)"

text \<open>
  The comparison function passed to \<open>sort\<close>. Only the sign of its result matters: the
  difference \<open>by - ay\<close> of two different years is represented by its sign.
  \<open>String.prototype.localeCompare\<close> of the runtime is a parameter.
\<close>

definition compare_entries ::
  "(string \<Rightarrow> 'n::{linorder,zero} option) \<Rightarrow> (string \<Rightarrow> string \<Rightarrow> int) \<Rightarrow> entry \<Rightarrow> entry \<Rightarrow> int" where
  "compare_entries Number localeCompare a b =
     (let ay = year_number Number a; by = year_number Number b
      in if ay \<noteq> by then (if by < ay then - 1 else 1)
         else localeCompare (fld a ''title'') (fld b ''title''))"

text \<open>
  \<open>Array.prototype.sort\<close> with a comparison function. ECMAScript requires the sort to be
  stable; for a consistent comparison function that determines the result, which is
  computed here by insertion: an element goes in front of the first element that it does
  not follow.
\<close>

fun insert_sorted :: "('a \<Rightarrow> 'a \<Rightarrow> int) \<Rightarrow> 'a \<Rightarrow> 'a list \<Rightarrow> 'a list" where
  "insert_sorted cmp x [] = [x]"
| "insert_sorted cmp x (y # ys) =
     (if cmp x y \<le> 0 then x # y # ys else y # insert_sorted cmp x ys)"

fun array_sort :: "('a \<Rightarrow> 'a \<Rightarrow> int) \<Rightarrow> 'a list \<Rightarrow> 'a list" where
  "array_sort cmp [] = []"
| "array_sort cmp (x # xs) = insert_sorted cmp x (array_sort cmp xs)"

definition cleanEntries ::
  "string list \<Rightarrow> (string \<Rightarrow> 'n::{linorder,zero} option) \<Rightarrow> (string \<Rightarrow> string \<Rightarrow> int)
     \<Rightarrow> entry list \<Rightarrow> entry list" where
  "cleanEntries dropped Number localeCompare entries =
     array_sort (compare_entries Number localeCompare) (map (clean_entry dropped) entries)"

text \<open>A consistent comparison function in the sense of ECMAScript, as
  \<open>localeCompare\<close> is: reflexive, with opposite signs for swapped arguments, and
  transitive.\<close>

definition consistent_comparator :: "('a \<Rightarrow> 'a \<Rightarrow> int) \<Rightarrow> bool" where
  "consistent_comparator cmp =
     ((\<forall>a. cmp a a = 0) \<and> (\<forall>a b. (cmp a b < 0) = (0 < cmp b a))
      \<and> (\<forall>a b c. cmp a b \<le> 0 \<and> cmp b c \<le> 0 \<longrightarrow> cmp a c \<le> 0))"

text \<open>
  Two concrete instances for the parameters, used in the examples: \<open>Number\<close> restricted to
  non-empty strings of decimal digits (every other string counts as \<open>NaN\<close>), and the
  comparison of two strings by code units.
\<close>

fun digits_value :: "string \<Rightarrow> int \<Rightarrow> int option" where
  "digits_value [] acc = Some acc"
| "digits_value (c # cs) acc =
     (let n = (of_char c :: nat) in
      if 48 \<le> n \<and> n \<le> 57 then digits_value cs (10 * acc + int (n - 48)) else None)"

definition digits_number :: "string \<Rightarrow> int option" where
  "digits_number s = (if s = [] then None else digits_value s 0)"

fun code_unit_compare :: "string \<Rightarrow> string \<Rightarrow> int" where
  "code_unit_compare [] [] = 0"
| "code_unit_compare [] (y # ys) = - 1"
| "code_unit_compare (x # xs) [] = 1"
| "code_unit_compare (x # xs) (y # ys) =
     (if (of_char x :: nat) < of_char y then - 1
      else if (of_char y :: nat) < of_char x then 1
      else code_unit_compare xs ys)"


text \<open>A third instance: \<open>Number\<close> restricted to decimal digits with an optional minus
  sign.\<close>

definition signed_number :: "string \<Rightarrow> int option" where
  "signed_number s =
     (case s of
        [] \<Rightarrow> None
      | c # cs \<Rightarrow> if c = CHR ''-'' then map_option uminus (digits_number cs) else digits_number s)"

lemma mset_insert_sorted: "mset (insert_sorted cmp x ys) = add_mset x (mset ys)"
  by (induction ys) auto

lemma mset_array_sort: "mset (array_sort cmp xs) = mset xs"
  by (induction xs) (auto simp: mset_insert_sorted)

lemma set_insert_sorted: "set (insert_sorted cmp x ys) = insert x (set ys)"
  by (induction ys) auto

lemma length_array_sort: "length (array_sort cmp xs) = length xs"
  by (metis mset_array_sort size_mset)

lemma sorted_insert_sorted:
  assumes c: "consistent_comparator cmp"
  shows "sorted_wrt (\<lambda>a b. cmp a b \<le> 0) ys \<Longrightarrow> sorted_wrt (\<lambda>a b. cmp a b \<le> 0) (insert_sorted cmp x ys)"
proof (induction ys)
  case Nil
  show ?case by simp
next
  case (Cons y ys)
  from c have tr: "\<And>a b c. cmp a b \<le> 0 \<Longrightarrow> cmp b c \<le> 0 \<Longrightarrow> cmp a c \<le> 0"
    unfolding consistent_comparator_def by blast
  from c have asym: "\<And>a b. 0 < cmp a b \<Longrightarrow> cmp b a < 0"
    unfolding consistent_comparator_def by blast
  show ?case
  proof (cases "cmp x y \<le> 0")
    case True
    with Cons.prems tr have "\<forall>z \<in> set ys. cmp x z \<le> 0" by auto
    with True Cons.prems show ?thesis by simp
  next
    case False
    then have "cmp y x \<le> 0" using asym [of x y] by simp
    with False Cons show ?thesis by (auto simp: set_insert_sorted)
  qed
qed

lemma sorted_array_sort:
  "consistent_comparator cmp \<Longrightarrow> sorted_wrt (\<lambda>a b. cmp a b \<le> 0) (array_sort cmp xs)"
  by (induction xs) (auto intro: sorted_insert_sorted)

lemma filter_insert_sorted:
  assumes "\<And>a b. P a \<Longrightarrow> P b \<Longrightarrow> cmp a b \<le> 0"
  shows "filter P (insert_sorted cmp x ys) = filter P (x # ys)"
  using assms by (induction ys) auto

lemma filter_array_sort:
  assumes "\<And>a b. P a \<Longrightarrow> P b \<Longrightarrow> cmp a b \<le> 0"
  shows "filter P (array_sort cmp xs) = filter P xs"
proof (induction xs)
  case Nil
  show ?case by simp
next
  case (Cons x xs)
  have "filter P (array_sort cmp (x # xs)) = filter P (x # array_sort cmp xs)"
    using assms by (simp add: filter_insert_sorted)
  with Cons show ?case by simp
qed

lemma array_sort_sorted_id:
  "sorted_wrt (\<lambda>a b. cmp a b \<le> 0) xs \<Longrightarrow> array_sort cmp xs = xs"
proof (induction xs)
  case Nil
  show ?case by simp
next
  case (Cons x xs)
  then have "array_sort cmp xs = xs" by simp
  moreover have "insert_sorted cmp x xs = x # xs" using Cons.prems by (cases xs) auto
  ultimately show ?case by simp
qed

lemma comparator_sym_zero:
  "consistent_comparator cmp \<Longrightarrow> cmp a b = 0 \<Longrightarrow> cmp b a = 0"
  unfolding consistent_comparator_def
  by (metis less_irrefl linorder_neqE_linordered_idom)

lemma consistent_compare_entries:
  assumes c: "consistent_comparator localeCompare"
  shows "consistent_comparator (compare_entries Number localeCompare)"
proof -
  from c have r: "\<And>a. localeCompare a a = 0"
    and s: "\<And>a b. (localeCompare a b < 0) = (0 < localeCompare b a)"
    and t: "\<And>a b c. localeCompare a b \<le> 0 \<Longrightarrow> localeCompare b c \<le> 0 \<Longrightarrow> localeCompare a c \<le> 0"
    unfolding consistent_comparator_def by blast+
  show ?thesis
    unfolding consistent_comparator_def
  proof (intro conjI allI impI)
    fix a show "compare_entries Number localeCompare a a = 0"
      by (simp add: compare_entries_def r)
  next
    fix a b
    show "(compare_entries Number localeCompare a b < 0) = (0 < compare_entries Number localeCompare b a)"
      by (auto simp: compare_entries_def Let_def s)
  next
    fix a b c
    assume "compare_entries Number localeCompare a b \<le> 0 \<and> compare_entries Number localeCompare b c \<le> 0"
    then show "compare_entries Number localeCompare a c \<le> 0"
      by (auto simp: compare_entries_def Let_def split: if_splits intro: t)
  qed
qed

lemma compare_entries_le_iff:
  "(compare_entries Number localeCompare a b \<le> 0) =
     (year_number Number b < year_number Number a
      \<or> (year_number Number a = year_number Number b
          \<and> localeCompare (fld a ''title'') (fld b ''title'') \<le> 0))"
  by (auto simp: compare_entries_def Let_def)

text \<open>
  Claim C2, amended. For every entry list and every consistent \<open>localeCompare\<close>, the result
  of \<open>cleanEntries\<close> is sorted by year number descending (the year string is
  \<open>fields.year\<close>, else the first four characters of \<open>fields.date\<close>, else \<open>Unknown\<close>; a
  year that is not a number counts as 0), ties broken by title ascending with a missing
  title read as the empty string; entries with the same year number and equivalent titles
  keep their original relative order. An entry whose year is not a number is followed by
  no entry with a positive year number.
\<close>

theorem cleanEntries_ordering:
  assumes c: "consistent_comparator localeCompare"
  shows "sorted_wrt (\<lambda>a b. year_number Number b < year_number Number a
            \<or> (year_number Number a = year_number Number b
                \<and> localeCompare (fld a ''title'') (fld b ''title'') \<le> 0))
           (cleanEntries dropped Number localeCompare entries)
     \<and> (\<forall>y t. filter (\<lambda>e. year_number Number e = y \<and> localeCompare (fld e ''title'') t = 0)
                 (cleanEntries dropped Number localeCompare entries)
              = filter (\<lambda>e. year_number Number e = y \<and> localeCompare (fld e ''title'') t = 0)
                 (map (clean_entry dropped) entries))
     \<and> mset (cleanEntries dropped Number localeCompare entries)
         = mset (map (clean_entry dropped) entries)
     \<and> (\<forall>e. Number (getYear e) = None \<longrightarrow> year_number Number e = 0)
     \<and> (\<forall>i j. i < j \<and> j < length (cleanEntries dropped Number localeCompare entries)
            \<and> Number (getYear (cleanEntries dropped Number localeCompare entries ! i)) = None
          \<longrightarrow> year_number Number (cleanEntries dropped Number localeCompare entries ! j) \<le> 0)"
proof (intro conjI allI impI)
  have "sorted_wrt (\<lambda>a b. compare_entries Number localeCompare a b \<le> 0)
          (cleanEntries dropped Number localeCompare entries)"
    unfolding cleanEntries_def
    by (rule sorted_array_sort) (rule consistent_compare_entries [OF c])
  then show s: "sorted_wrt (\<lambda>a b. year_number Number b < year_number Number a
            \<or> (year_number Number a = year_number Number b
                \<and> localeCompare (fld a ''title'') (fld b ''title'') \<le> 0))
           (cleanEntries dropped Number localeCompare entries)"
    by (simp only: compare_entries_le_iff)
  fix i j
  let ?out = "cleanEntries dropped Number localeCompare entries"
  assume a: "i < j \<and> j < length ?out \<and> Number (getYear (?out ! i)) = None"
  then have z: "year_number Number (?out ! i) = 0" by (simp add: year_number_def)
  from a s have "year_number Number (?out ! j) < year_number Number (?out ! i)
      \<or> year_number Number (?out ! i) = year_number Number (?out ! j)"
    by (auto simp: sorted_wrt_iff_nth_less)
  with z show "year_number Number (?out ! j) \<le> 0" by auto
next
  fix y :: 'a and t
  let ?P = "\<lambda>e. year_number Number e = y \<and> localeCompare (fld e ''title'') t = 0"
  from c have tr: "\<And>a b c. localeCompare a b \<le> 0 \<Longrightarrow> localeCompare b c \<le> 0 \<Longrightarrow> localeCompare a c \<le> 0"
    unfolding consistent_comparator_def by blast
  have "\<And>a b. ?P a \<Longrightarrow> ?P b \<Longrightarrow> compare_entries Number localeCompare a b \<le> 0"
  proof -
    fix a b assume a: "?P a" and b: "?P b"
    from b comparator_sym_zero [OF c] have "localeCompare t (fld b ''title'') = 0" by simp
    with a tr [of "fld a ''title''" t "fld b ''title''"]
    have "localeCompare (fld a ''title'') (fld b ''title'') \<le> 0" by simp
    with a b show "compare_entries Number localeCompare a b \<le> 0"
      by (simp add: compare_entries_le_iff)
  qed
  then show "filter ?P (cleanEntries dropped Number localeCompare entries)
      = filter ?P (map (clean_entry dropped) entries)"
    unfolding cleanEntries_def by (rule filter_array_sort)
next
  show "mset (cleanEntries dropped Number localeCompare entries)
         = mset (map (clean_entry dropped) entries)"
    by (simp add: cleanEntries_def mset_array_sort)
next
  fix e assume "Number (getYear e) = None"
  then show "year_number Number e = 0" by (simp add: year_number_def)
qed

text \<open>
  Claim C2 as stated fails in its clause that entries without a numeric year sort last:
  such an entry counts as year 0, so it ties with the year \<open>0\<close>, where the title decides,
  and it comes before a negative year.
\<close>

theorem cleanEntries_ordering_counterexample:
  "digits_number (getYear \<lparr>type = ''article'', key = ''k2'', efields = [(''title'', ''A'')]\<rparr>) = None
   \<and> digits_number (getYear \<lparr>type = ''article'', key = ''k1'', efields = [(''title'', ''Z''), (''year'', ''0'')]\<rparr>) = Some 0
   \<and> cleanEntries DROP_FIELDS digits_number code_unit_compare
       [\<lparr>type = ''article'', key = ''k1'', efields = [(''title'', ''Z''), (''year'', ''0'')]\<rparr>,
        \<lparr>type = ''article'', key = ''k2'', efields = [(''title'', ''A'')]\<rparr>]
     = [\<lparr>type = ''article'', key = ''k2'', efields = [(''title'', ''A'')]\<rparr>,
        \<lparr>type = ''article'', key = ''k1'', efields = [(''title'', ''Z''), (''year'', ''0'')]\<rparr>]
   \<and> signed_number (getYear \<lparr>type = ''article'', key = ''k4'', efields = [(''title'', ''B'')]\<rparr>) = None
   \<and> signed_number (getYear \<lparr>type = ''article'', key = ''k3'', efields = [(''title'', ''A''), (''year'', ''-1'')]\<rparr>) = Some (- 1)
   \<and> cleanEntries DROP_FIELDS signed_number code_unit_compare
       [\<lparr>type = ''article'', key = ''k3'', efields = [(''title'', ''A''), (''year'', ''-1'')]\<rparr>,
        \<lparr>type = ''article'', key = ''k4'', efields = [(''title'', ''B'')]\<rparr>]
     = [\<lparr>type = ''article'', key = ''k4'', efields = [(''title'', ''B'')]\<rparr>,
        \<lparr>type = ''article'', key = ''k3'', efields = [(''title'', ''A''), (''year'', ''-1'')]\<rparr>]"
  by code_simp

lemma code_unit_compare_refl: "code_unit_compare a a = 0"
  by (induction a) simp_all

lemma code_unit_compare_sym: "(code_unit_compare a b < 0) = (0 < code_unit_compare b a)"
proof (induction a b rule: code_unit_compare.induct)
  case (4 x xs y ys)
  then show ?case by (cases "(of_char x :: nat) < of_char y"; cases "(of_char y :: nat) < of_char x") simp_all
qed simp_all

lemma code_unit_compare_trans:
  "code_unit_compare a b \<le> 0 \<Longrightarrow> code_unit_compare b c \<le> 0 \<Longrightarrow> code_unit_compare a c \<le> 0"
proof (induction a b arbitrary: c rule: code_unit_compare.induct)
  case 1
  then show ?case by simp
next
  case (2 y ys)
  then show ?case by (cases c) simp_all
next
  case (3 x xs)
  then show ?case by simp
next
  case (4 x xs y ys)
  show ?case
  proof (cases c)
    case Nil
    with 4(3) show ?thesis by simp
  next
    case (Cons z zs)
    let ?x = "of_char x :: nat" and ?y = "of_char y :: nat" and ?z = "of_char z :: nat"
    from 4(2) have xy: "?x \<le> ?y" by (simp split: if_splits)
    from 4(3) Cons have yz: "?y \<le> ?z" by (simp split: if_splits)
    show ?thesis
    proof (cases "?x < ?z")
      case True
      with Cons show ?thesis by simp
    next
      case False
      with xy yz have eq: "?x = ?y" "?y = ?z" by linarith+
      with 4(2) have ab: "code_unit_compare xs ys \<le> 0" by simp
      from eq 4(3) Cons have bc: "code_unit_compare ys zs \<le> 0" by simp
      from eq have "\<not> ?x < ?y" "\<not> ?y < ?x" by simp_all
      from 4(1) [OF this ab bc] eq Cons show ?thesis by simp
    qed
  qed
qed

lemma consistent_code_unit_compare: "consistent_comparator code_unit_compare"
  unfolding consistent_comparator_def
  using code_unit_compare_refl code_unit_compare_sym code_unit_compare_trans by blast

theorem cleanEntries_ordering_witness:
  "consistent_comparator code_unit_compare
   \<and> cleanEntries DROP_FIELDS digits_number code_unit_compare
       [\<lparr>type = ''article'', key = ''k1'', efields = [(''title'', ''{B}''), (''year'', ''2019'')]\<rparr>,
        \<lparr>type = ''article'', key = ''k2'', efields = [(''title'', ''{B}''), (''date'', ''2020-01-01'')]\<rparr>,
        \<lparr>type = ''article'', key = ''k3'', efields = [(''title'', ''{A}''), (''year'', ''2020'')]\<rparr>,
        \<lparr>type = ''article'', key = ''k4'', efields = [(''title'', ''{B}''), (''year'', ''2020'')]\<rparr>,
        \<lparr>type = ''article'', key = ''k5'', efields = [(''title'', ''{B}'')]\<rparr>,
        \<lparr>type = ''article'', key = ''k6'', efields = [(''title'', ''{C}''), (''year'', ''2021''), (''date'', ''2018-03-04'')]\<rparr>,
        \<lparr>type = ''article'', key = ''k7'', efields = [(''title'', ''{A}''), (''year'', ''2001'')]\<rparr>]
     = [\<lparr>type = ''article'', key = ''k6'', efields = [(''title'', ''C''), (''year'', ''2021''), (''date'', ''2018-03-04'')]\<rparr>,
        \<lparr>type = ''article'', key = ''k3'', efields = [(''title'', ''A''), (''year'', ''2020'')]\<rparr>,
        \<lparr>type = ''article'', key = ''k2'', efields = [(''title'', ''B''), (''date'', ''2020-01-01'')]\<rparr>,
        \<lparr>type = ''article'', key = ''k4'', efields = [(''title'', ''B''), (''year'', ''2020'')]\<rparr>,
        \<lparr>type = ''article'', key = ''k1'', efields = [(''title'', ''B''), (''year'', ''2019'')]\<rparr>,
        \<lparr>type = ''article'', key = ''k7'', efields = [(''title'', ''A''), (''year'', ''2001'')]\<rparr>,
        \<lparr>type = ''article'', key = ''k5'', efields = [(''title'', ''B'')]\<rparr>]
   \<and> sorted_wrt (\<lambda>a b. year_number digits_number b < year_number digits_number a
            \<or> (year_number digits_number a = year_number digits_number b
                \<and> code_unit_compare (fld a ''title'') (fld b ''title'') \<le> 0))
       [\<lparr>type = ''article'', key = ''k6'', efields = [(''title'', ''C''), (''year'', ''2021''), (''date'', ''2018-03-04'')]\<rparr>,
        \<lparr>type = ''article'', key = ''k3'', efields = [(''title'', ''A''), (''year'', ''2020'')]\<rparr>,
        \<lparr>type = ''article'', key = ''k2'', efields = [(''title'', ''B''), (''date'', ''2020-01-01'')]\<rparr>,
        \<lparr>type = ''article'', key = ''k4'', efields = [(''title'', ''B''), (''year'', ''2020'')]\<rparr>,
        \<lparr>type = ''article'', key = ''k1'', efields = [(''title'', ''B''), (''year'', ''2019'')]\<rparr>,
        \<lparr>type = ''article'', key = ''k7'', efields = [(''title'', ''A''), (''year'', ''2001'')]\<rparr>,
        \<lparr>type = ''article'', key = ''k5'', efields = [(''title'', ''B'')]\<rparr>]
   \<and> digits_number (getYear \<lparr>type = ''article'', key = ''k5'', efields = [(''title'', ''B'')]\<rparr>) = None
   \<and> year_number digits_number \<lparr>type = ''article'', key = ''k5'', efields = [(''title'', ''B'')]\<rparr> = 0
   \<and> cleanEntries DROP_FIELDS digits_number code_unit_compare
       [\<lparr>type = ''article'', key = ''k5'', efields = [(''title'', ''{B}'')]\<rparr>,
        \<lparr>type = ''article'', key = ''k8'', efields = [(''title'', ''{C}''), (''year'', ''n.d.'')]\<rparr>]
     = [\<lparr>type = ''article'', key = ''k5'', efields = [(''title'', ''B'')]\<rparr>,
        \<lparr>type = ''article'', key = ''k8'', efields = [(''title'', ''C''), (''year'', ''n.d.'')]\<rparr>]
   \<and> year_number digits_number \<lparr>type = ''article'', key = ''k8'', efields = [(''title'', ''C''), (''year'', ''n.d.'')]\<rparr> \<le> 0"
proof -
  let ?input = "[\<lparr>type = ''article'', key = ''k1'', efields = [(''title'', ''{B}''), (''year'', ''2019'')]\<rparr>,
        \<lparr>type = ''article'', key = ''k2'', efields = [(''title'', ''{B}''), (''date'', ''2020-01-01'')]\<rparr>,
        \<lparr>type = ''article'', key = ''k3'', efields = [(''title'', ''{A}''), (''year'', ''2020'')]\<rparr>,
        \<lparr>type = ''article'', key = ''k4'', efields = [(''title'', ''{B}''), (''year'', ''2020'')]\<rparr>,
        \<lparr>type = ''article'', key = ''k5'', efields = [(''title'', ''{B}'')]\<rparr>,
        \<lparr>type = ''article'', key = ''k6'', efields = [(''title'', ''{C}''), (''year'', ''2021''), (''date'', ''2018-03-04'')]\<rparr>,
        \<lparr>type = ''article'', key = ''k7'', efields = [(''title'', ''{A}''), (''year'', ''2001'')]\<rparr>]"
  let ?k5 = "\<lparr>type = ''article'', key = ''k5'', efields = [(''title'', ''B'')]\<rparr>"
  let ?k8 = "\<lparr>type = ''article'', key = ''k8'', efields = [(''title'', ''C''), (''year'', ''n.d.'')]\<rparr>"
  let ?pair = "[\<lparr>type = ''article'', key = ''k5'', efields = [(''title'', ''{B}'')]\<rparr>,
        \<lparr>type = ''article'', key = ''k8'', efields = [(''title'', ''{C}''), (''year'', ''n.d.'')]\<rparr>]"
  have ev: "cleanEntries DROP_FIELDS digits_number code_unit_compare ?input
     = [\<lparr>type = ''article'', key = ''k6'', efields = [(''title'', ''C''), (''year'', ''2021''), (''date'', ''2018-03-04'')]\<rparr>,
        \<lparr>type = ''article'', key = ''k3'', efields = [(''title'', ''A''), (''year'', ''2020'')]\<rparr>,
        \<lparr>type = ''article'', key = ''k2'', efields = [(''title'', ''B''), (''date'', ''2020-01-01'')]\<rparr>,
        \<lparr>type = ''article'', key = ''k4'', efields = [(''title'', ''B''), (''year'', ''2020'')]\<rparr>,
        \<lparr>type = ''article'', key = ''k1'', efields = [(''title'', ''B''), (''year'', ''2019'')]\<rparr>,
        \<lparr>type = ''article'', key = ''k7'', efields = [(''title'', ''A''), (''year'', ''2001'')]\<rparr>,
        \<lparr>type = ''article'', key = ''k5'', efields = [(''title'', ''B'')]\<rparr>]"
    by code_simp
  have ev2: "cleanEntries DROP_FIELDS digits_number code_unit_compare ?pair = [?k5, ?k8]"
    by code_simp
  have nan: "digits_number (getYear ?k5) = None" by code_simp
  note ord = cleanEntries_ordering [OF consistent_code_unit_compare, of digits_number DROP_FIELDS]
  from ord [of ?input]
  have s: "sorted_wrt (\<lambda>a b. year_number digits_number b < year_number digits_number a
            \<or> (year_number digits_number a = year_number digits_number b
                \<and> code_unit_compare (fld a ''title'') (fld b ''title'') \<le> 0))
         (cleanEntries DROP_FIELDS digits_number code_unit_compare ?input)"
    by blast
  from ord [of ?input] nan have z: "year_number digits_number ?k5 = 0" by blast
  from ord [of ?pair]
  have "(0::nat) < 1 \<and> 1 < length (cleanEntries DROP_FIELDS digits_number code_unit_compare ?pair)
            \<and> digits_number (getYear (cleanEntries DROP_FIELDS digits_number code_unit_compare ?pair ! 0)) = None
          \<longrightarrow> year_number digits_number (cleanEntries DROP_FIELDS digits_number code_unit_compare ?pair ! 1) \<le> 0"
    by blast
  with nan have l: "year_number digits_number ?k8 \<le> 0"
    unfolding ev2 by simp
  from ev ev2 nan s z l consistent_code_unit_compare show ?thesis by simp
qed

text \<open>The fields objects that \<open>parseBib\<close> builds: no name occurs twice, and no own
  property is called \<open>__proto__\<close>.\<close>

definition own_properties :: "fields \<Rightarrow> bool" where
  "own_properties fs = (distinct (map fst fs) \<and> ''__proto__'' \<notin> set (map fst fs))"

lemma map_of_obj_set:
  "name \<noteq> ''__proto__'' \<Longrightarrow> map_of (obj_set fs name v) = (map_of fs)(name \<mapsto> v)"
  by (simp add: obj_set_def update_conv')

lemma map_of_clean_fold:
  assumes "distinct (map fst fs)" "''__proto__'' \<notin> set (map fst fs)"
  shows "map_of (foldl (\<lambda>acc (name, rawValue).
        if name \<in> set dropped then acc
        else (let normalized = bibToText rawValue
              in if normalized = [] then acc else obj_set acc name normalized)) acc fs) name =
     (case map_of fs name of
        None \<Rightarrow> map_of acc name
      | Some raw \<Rightarrow>
          if name \<in> set dropped \<or> bibToText raw = [] then map_of acc name
          else Some (bibToText raw))"
  using assms
proof (induction fs arbitrary: acc)
  case Nil
  show ?case by simp
next
  case (Cons p fs)
  obtain n raw where p: "p = (n, raw)" by (cases p)
  from Cons.prems p have d: "distinct (map fst fs)" "''__proto__'' \<notin> set (map fst fs)"
    and n: "n \<noteq> ''__proto__''" and fresh: "map_of fs n = None"
    by (auto simp: map_of_eq_None_iff)
  show ?case
  proof (cases "n \<in> set dropped \<or> bibToText raw = []")
    case True
    with p Cons.IH [OF d] fresh show ?thesis
      by (auto simp: Let_def split: option.splits)
  next
    case False
    with p Cons.IH [OF d, of "obj_set acc n (bibToText raw)"] fresh n show ?thesis
      by (auto simp: Let_def map_of_obj_set split: option.splits)
  qed
qed

lemma map_of_clean_fields:
  "own_properties fs \<Longrightarrow>
   map_of (clean_fields dropped fs) name =
     (if name \<in> set dropped then None
      else case map_of fs name of
             None \<Rightarrow> None
           | Some raw \<Rightarrow> if bibToText raw = [] then None else Some (bibToText raw))"
  unfolding clean_fields_def own_properties_def
  by (subst map_of_clean_fold) (auto split: option.splits)

text \<open>
  Claim C10. \<open>cleanEntries\<close> preserves the number of entries; its result is a rearrangement
  of the cleaned entries, each of which has the type and the key of its source; in the
  fields, denylisted names and values that normalise to the empty string are gone and
  every other value is normalised.
\<close>

theorem cleanEntries_frame:
  "length (cleanEntries dropped Number localeCompare entries) = length entries
   \<and> mset (cleanEntries dropped Number localeCompare entries)
       = mset (map (clean_entry dropped) entries)
   \<and> (\<forall>e. type (clean_entry dropped e) = type e \<and> key (clean_entry dropped e) = key e
        \<and> (own_properties (efields e) \<longrightarrow>
             (\<forall>name. map_of (efields (clean_entry dropped e)) name =
                (if name \<in> set dropped then None
                 else case map_of (efields e) name of
                        None \<Rightarrow> None
                      | Some raw \<Rightarrow> if bibToText raw = [] then None else Some (bibToText raw)))))"
  by (simp add: cleanEntries_def length_array_sort mset_array_sort clean_entry_def
      map_of_clean_fields)

theorem cleanEntries_frame_witness:
  "own_properties [(''title'', ''{ A  {B} }''), (''file'', ''a.pdf''), (''note'', ''{}'')]
   \<and> clean_entry DROP_FIELDS
        \<lparr>type = ''article'', key = ''k'',
         efields = [(''title'', ''{ A  {B} }''), (''file'', ''a.pdf''), (''note'', ''{}'')]\<rparr>
       = \<lparr>type = ''article'', key = ''k'', efields = [(''title'', ''A B'')]\<rparr>
   \<and> map_of (efields (clean_entry DROP_FIELDS
        \<lparr>type = ''article'', key = ''k'',
         efields = [(''title'', ''{ A  {B} }''), (''file'', ''a.pdf''), (''note'', ''{}'')]\<rparr>)) ''title''
       = Some (bibToText ''{ A  {B} }'')"
proof -
  let ?e = "\<lparr>type = ''article'', key = ''k'',
         efields = [(''title'', ''{ A  {B} }''), (''file'', ''a.pdf''), (''note'', ''{}'')]\<rparr>"
  have o: "own_properties (efields ?e)" by code_simp
  have ev: "clean_entry DROP_FIELDS ?e = \<lparr>type = ''article'', key = ''k'', efields = [(''title'', ''A B'')]\<rparr>"
    by code_simp
  have nd: "''title'' \<notin> set DROP_FIELDS" by code_simp
  have ne: "bibToText ''{ A  {B} }'' \<noteq> []" by code_simp
  from cleanEntries_frame [of DROP_FIELDS digits_number code_unit_compare "[]"] o
  have "map_of (efields (clean_entry DROP_FIELDS ?e)) ''title'' =
     (if ''title'' \<in> set DROP_FIELDS then None
      else case map_of (efields ?e) ''title'' of
             None \<Rightarrow> None
           | Some raw \<Rightarrow> if bibToText raw = [] then None else Some (bibToText raw))"
    by blast
  with nd ne have "map_of (efields (clean_entry DROP_FIELDS ?e)) ''title'' = Some (bibToText ''{ A  {B} }'')"
    by simp
  with o ev show ?thesis by simp
qed

section \<open>buildLinks\<close>

text \<open>A link \<open>{ label, href }\<close>. The closure state of \<open>buildLinks\<close> is the array
  \<open>links\<close> and the set \<open>seen\<close>, kept as the list of its members.\<close>

record link =
  label :: string
  href :: string

type_synonym link_state = "link list \<times> string list"

definition addLink :: "string \<Rightarrow> string \<Rightarrow> link_state \<Rightarrow> link_state" where
  "addLink lab target st =
     (case st of (links, seen) \<Rightarrow>
        if target = [] \<or> target \<in> set seen then st
        else (links @ [\<lparr>label = lab, href = target\<rparr>], seen @ [target]))"

text \<open>
  The regular expressions of \<open>looksLikeLink\<close> and \<open>normalizeLinkTarget\<close>:
  \<open>/^https?:\/\//i\<close>, \<open>/^mailto:/i\<close>, \<open>/^\.{0,2}\//\<close>, \<open>/^\//\<close> and
  \<open>/\.pdf($|[?#])/i\<close>. The flag \<open>i\<close> only concerns the ASCII letters of the patterns.
\<close>

definition starts_with_ci :: "string \<Rightarrow> string \<Rightarrow> bool" where
  "starts_with_ci pat v = (take (length pat) (toLowerCase v) = pat)"

definition is_http_url :: "string \<Rightarrow> bool" where
  "is_http_url v = (starts_with_ci ''http://'' v \<or> starts_with_ci ''https://'' v)"

definition is_mailto :: "string \<Rightarrow> bool" where
  "is_mailto v = starts_with_ci ''mailto:'' v"

definition is_dot_path :: "string \<Rightarrow> bool" where
  "is_dot_path v = (take 1 v = ''/'' \<or> take 2 v = ''./'' \<or> take 3 v = ''../'')"

definition is_abs_path :: "string \<Rightarrow> bool" where
  "is_abs_path v = (take 1 v = ''/'')"

fun pdf_suffix_at :: "string \<Rightarrow> bool" where
  "pdf_suffix_at [] = False"
| "pdf_suffix_at (c # cs) =
     ((take 4 (c # cs) = ''.pdf'' \<and>
        (case drop 4 (c # cs) of [] \<Rightarrow> True | d # _ \<Rightarrow> d = CHR ''?'' \<or> d = CHR ''#''))
      \<or> pdf_suffix_at cs)"

definition has_pdf_extension :: "string \<Rightarrow> bool" where
  "has_pdf_extension v = pdf_suffix_at (toLowerCase v)"

definition looksLikeLink :: "string \<Rightarrow> bool" where
  "looksLikeLink val =
     (let v = trim val
      in is_http_url v \<or> is_mailto v \<or> is_dot_path v \<or> is_abs_path v \<or> has_pdf_extension v)"

definition normalizeLinkTarget :: "string \<Rightarrow> string" where
  "normalizeLinkTarget val =
     (let v = trim val
      in if is_http_url v \<or> is_mailto v \<or> is_dot_path v \<or> is_abs_path v then v
         else ''pdfs/'' @ v)"

text \<open>The loop of \<open>addAssetLink\<close> over the candidate field names: \<open>continue\<close> goes on
  with the rest, and the first accepted candidate ends the loop.\<close>

fun addAssetLink :: "entry \<Rightarrow> string \<Rightarrow> string list \<Rightarrow> link_state \<Rightarrow> link_state" where
  "addAssetLink e lab [] st = st"
| "addAssetLink e lab (fieldName # rest) st =
     (let raw = fld e fieldName
      in if raw = [] then addAssetLink e lab rest st
         else if \<not> looksLikeLink raw then addAssetLink e lab rest st
         else addLink lab (normalizeLinkTarget raw) st)"

text \<open>\<open>/doi\.org\//i.test(url)\<close> is \<open>contains_text ''doi.org/''\<close> of the lower-cased text.\<close>

fun contains_text :: "string \<Rightarrow> string \<Rightarrow> bool" where
  "contains_text pat [] = (pat = [])"
| "contains_text pat (c # cs) = (take (length pat) (c # cs) = pat \<or> contains_text pat cs)"

text \<open>A conditional statement \<open>if (c) addLink(...)\<close> on the closure state.\<close>

definition when_do :: "bool \<Rightarrow> (link_state \<Rightarrow> link_state) \<Rightarrow> link_state \<Rightarrow> link_state" where
  "when_do c f st = (if c then f st else st)"

text \<open>
  The fallback \<open>if (links.length === 0 && fs.existsSync(pdfPath)) addLink(label, ...)\<close>.
  The file system probe for the PDF of an entry is the parameter \<open>assetExists\<close>, a
  predicate on the entry key.
\<close>

definition default_pdf :: "(string \<Rightarrow> bool) \<Rightarrow> entry \<Rightarrow> string \<Rightarrow> link_state \<Rightarrow> link_state" where
  "default_pdf assetExists e lab st =
     when_do (fst st = [] \<and> assetExists (key e)) (addLink lab (''pdfs/'' @ key e @ ''.pdf'')) st"

definition buildLinks :: "(string \<Rightarrow> bool) \<Rightarrow> entry \<Rightarrow> link list" where
  "buildLinks assetExists e =
     (let st = ([], []) in
      if type e = ''article'' then
        (let st = addAssetLink e ''Final Draft''
                    [''final_draft'', ''final_draft_url'', ''paper_pdf'', ''paper_url'', ''pdf''] st;
             st = default_pdf assetExists e ''Final Draft'' st
         in fst st)
      else if type e = ''phdthesis'' \<or> type e = ''mastersthesis'' then
        (let st = addAssetLink e ''Final Draft''
                    [''final_draft'', ''final_draft_url'', ''paper_pdf'', ''paper_url'', ''pdf''] st;
             st = addAssetLink e ''Presentation''
                    [''presentation_url'', ''presentation_link'', ''presentation_pdf'',
                     ''slides_url'', ''slides_link'', ''slides_pdf''] st;
             st = default_pdf assetExists e ''Final Draft'' st
         in fst st)
      else if type e = ''inproceedings'' then
        (let st = addAssetLink e ''Abstract''
                    [''abstract_url'', ''abstract_link'', ''abstract_pdf'', ''abstract''] st;
             st = addAssetLink e ''Presentation''
                    [''presentation_url'', ''presentation_link'', ''presentation_pdf'',
                     ''talk_url'', ''talk_pdf''] st;
             st = addAssetLink e ''Poster''
                    [''poster_url'', ''poster_link'', ''poster_pdf'', ''poster''] st;
             st = default_pdf assetExists e ''Abstract'' st
         in fst st)
      else if type e = ''unpublished'' then
        (let st = addAssetLink e ''Slides''
                    [''slides_url'', ''slides_link'', ''slides_pdf'', ''slides''] st;
             st = default_pdf assetExists e ''Slides'' st
         in fst st)
      else
        (let doi = fld e ''doi'';
             url = fld e ''url'';
             doiHref = (if doi \<noteq> [] then ''https://doi.org/'' @ doi else []);
             isDoiUrl = (if url \<noteq> [] then contains_text ''doi.org/'' (toLowerCase url) else False);
             st = when_do (url \<noteq> []) (addLink (if isDoiUrl then ''DOI'' else ''Link'') url) st;
             st = when_do (url \<noteq> [] \<and> doiHref \<noteq> [] \<and> \<not> isDoiUrl) (addLink ''DOI'' doiHref) st;
             st = when_do (assetExists (key e)) (addLink ''PDF'' (''pdfs/'' @ key e @ ''.pdf'')) st
         in fst st))"

text \<open>\<open>buildLinks\<close> of \<open>scripts/sync-publications.mjs\<close>.\<close>

definition buildLinks_sync :: "(string \<Rightarrow> bool) \<Rightarrow> entry \<Rightarrow> link list" where
  "buildLinks_sync assetExists e =
     (let st = ([], []);
          doi = fld e ''doi'';
          url = fld e ''url'';
          doiHref = (if doi \<noteq> [] then ''https://doi.org/'' @ doi else []);
          isDoiUrl = (if url \<noteq> [] then contains_text ''doi.org/'' (toLowerCase url) else False);
          st = (if url \<noteq> [] then addLink (if isDoiUrl then ''DOI'' else ''Link'') url st
                else when_do (doiHref \<noteq> []) (addLink ''DOI'' doiHref) st);
          st = when_do (url \<noteq> [] \<and> doiHref \<noteq> [] \<and> \<not> isDoiUrl) (addLink ''DOI'' doiHref) st;
          st = when_do (assetExists (key e)) (addLink ''PDF'' (''pdfs/'' @ key e @ ''.pdf'')) st
      in fst st)"

definition links_inv :: "link_state \<Rightarrow> bool" where
  "links_inv st = (distinct (map href (fst st)) \<and> set (map href (fst st)) \<subseteq> set (snd st))"

lemma links_inv_start: "links_inv ([], [])"
  by (simp add: links_inv_def)

lemma links_inv_addLink: "links_inv st \<Longrightarrow> links_inv (addLink lab target st)"
  by (cases st) (auto simp: links_inv_def addLink_def)

lemma links_inv_addAssetLink: "links_inv st \<Longrightarrow> links_inv (addAssetLink e lab names st)"
  by (induction names) (auto simp: Let_def links_inv_addLink)

declare addAssetLink.simps [simp del]

lemma links_inv_when_addLink: "links_inv st \<Longrightarrow> links_inv (when_do c (addLink lab t) st)"
  by (simp add: when_do_def links_inv_addLink)

lemma links_inv_default_pdf: "links_inv st \<Longrightarrow> links_inv (default_pdf assetExists e lab st)"
  by (simp add: default_pdf_def links_inv_when_addLink)

lemma links_inv_distinct: "links_inv st \<Longrightarrow> distinct (map href (fst st))"
  by (simp add: links_inv_def)

lemma buildLinks_state: "\<exists>st. links_inv st \<and> buildLinks assetExists e = fst st"
proof -
  have "\<And>st. links_inv st \<Longrightarrow> \<exists>st'. links_inv st' \<and> fst st = fst st'"
    by blast
  then show ?thesis
    unfolding buildLinks_def Let_def
    by (simp add: links_inv_addAssetLink links_inv_default_pdf links_inv_when_addLink
        links_inv_start)
qed

lemma distinct_buildLinks: "distinct (map href (buildLinks assetExists e))"
  using buildLinks_state [of assetExists e] links_inv_distinct by auto

lemma buildLinks_sync_state: "\<exists>st. links_inv st \<and> buildLinks_sync assetExists e = fst st"
proof -
  have "\<And>st. links_inv st \<Longrightarrow> \<exists>st'. links_inv st' \<and> fst st = fst st'"
    by blast
  then show ?thesis
    unfolding buildLinks_sync_def Let_def
    by (simp add: links_inv_addLink links_inv_when_addLink links_inv_start)
qed

lemma distinct_buildLinks_sync: "distinct (map href (buildLinks_sync assetExists e))"
  using buildLinks_sync_state [of assetExists e] links_inv_distinct by auto

text \<open>
  Claim C4. For every entry and every state of the file system, the links returned by
  \<open>buildLinks\<close> (in either script) have pairwise distinct \<open>href\<close> strings.
\<close>

theorem buildLinks_no_duplicate_href:
  "distinct (map href (buildLinks assetExists e))
   \<and> distinct (map href (buildLinks_sync assetExists e))"
  using distinct_buildLinks distinct_buildLinks_sync by blast

lemma addAssetLink_find:
  "addAssetLink e lab names st =
     (case find (\<lambda>n. fld e n \<noteq> [] \<and> looksLikeLink (fld e n)) names of
        None \<Rightarrow> st
      | Some n \<Rightarrow> addLink lab (normalizeLinkTarget (fld e n)) st)"
  by (induction names) (auto simp: Let_def addAssetLink.simps)

definition path_like :: "string \<Rightarrow> bool" where
  "path_like v = (is_http_url v \<or> is_mailto v \<or> is_dot_path v \<or> is_abs_path v)"

text \<open>
  Claim C3, amended. \<open>addAssetLink\<close> takes the first candidate field that is present and
  whose value looks like a link, and adds its normalised target; a present value that does
  not look like a link is skipped. A value looks like a link when, trimmed, it is an
  absolute URL, a \<open>mailto:\<close> address or a path, or contains \<open>.pdf\<close> at its end or before
  \<open>?\<close> or \<open>#\<close>. The target is the trimmed value itself in the first three cases and the
  trimmed value under \<open>pdfs/\<close> otherwise.
\<close>

theorem addAssetLink_first_link:
  "addAssetLink e lab names st =
     (case find (\<lambda>n. fld e n \<noteq> [] \<and> looksLikeLink (fld e n)) names of
        None \<Rightarrow> st
      | Some n \<Rightarrow> addLink lab (normalizeLinkTarget (fld e n)) st)
   \<and> looksLikeLink raw = (path_like (trim raw) \<or> has_pdf_extension (trim raw))
   \<and> (path_like (trim raw) \<longrightarrow> normalizeLinkTarget raw = trim raw)
   \<and> (\<not> path_like (trim raw) \<longrightarrow> normalizeLinkTarget raw = ''pdfs/'' @ trim raw)"
  by (auto simp: addAssetLink_find looksLikeLink_def normalizeLinkTarget_def path_like_def Let_def)

text \<open>
  Claim C3 as stated fails: the present candidate value \<open>notes\<close> does not look like a link,
  and it is skipped, not rewritten to \<open>pdfs/notes\<close>.
\<close>

theorem addAssetLink_bare_name_counterexample:
  "fld \<lparr>type = ''article'', key = ''k'', efields = [(''final_draft'', ''notes'')]\<rparr> ''final_draft'' = ''notes''
   \<and> \<not> looksLikeLink ''notes''
   \<and> addAssetLink \<lparr>type = ''article'', key = ''k'', efields = [(''final_draft'', ''notes'')]\<rparr>
        ''Final Draft'' [''final_draft''] ([], []) = ([], [])
   \<and> addAssetLink \<lparr>type = ''article'', key = ''k'', efields = [(''final_draft'', ''notes'')]\<rparr>
        ''Final Draft'' [''final_draft''] ([], []) \<noteq> addLink ''Final Draft'' ''pdfs/notes'' ([], [])
   \<and> buildLinks (\<lambda>k. False) \<lparr>type = ''article'', key = ''k'', efields = [(''final_draft'', ''notes'')]\<rparr> = []"
  by code_simp

theorem addAssetLink_first_link_witness:
  "\<not> path_like (trim '' Thesis.PDF#p=2 '')
   \<and> looksLikeLink '' Thesis.PDF#p=2 ''
   \<and> normalizeLinkTarget '' Thesis.PDF#p=2 '' = ''pdfs/Thesis.PDF#p=2''
   \<and> path_like (trim ''https://example.org/a'')
   \<and> normalizeLinkTarget ''https://example.org/a'' = ''https://example.org/a''
   \<and> addAssetLink \<lparr>type = ''article'', key = ''k'',
          efields = [(''final_draft'', ''notes''), (''pdf'', '' Thesis.PDF#p=2 '')]\<rparr>
        ''Final Draft'' [''final_draft'', ''final_draft_url'', ''paper_pdf'', ''paper_url'', ''pdf'']
        ([], [])
       = ([\<lparr>label = ''Final Draft'', href = ''pdfs/Thesis.PDF#p=2''\<rparr>], [''pdfs/Thesis.PDF#p=2''])"
proof -
  let ?e = "\<lparr>type = ''article'', key = ''k'',
          efields = [(''final_draft'', ''notes''), (''pdf'', '' Thesis.PDF#p=2 '')]\<rparr>"
  let ?names = "[''final_draft'', ''final_draft_url'', ''paper_pdf'', ''paper_url'', ''pdf'']"
  have t: "trim '' Thesis.PDF#p=2 '' = ''Thesis.PDF#p=2''" by code_simp
  have np: "\<not> path_like (trim '' Thesis.PDF#p=2 '')" by code_simp
  have p: "path_like (trim ''https://example.org/a'')" by code_simp
  have tp: "trim ''https://example.org/a'' = ''https://example.org/a''" by code_simp
  have ext: "has_pdf_extension (trim '' Thesis.PDF#p=2 '')" by code_simp
  have f: "find (\<lambda>n. fld ?e n \<noteq> [] \<and> looksLikeLink (fld ?e n)) ?names = Some ''pdf''"
    by code_simp
  have v: "fld ?e ''pdf'' = '' Thesis.PDF#p=2 ''" by code_simp
  have a: "addLink ''Final Draft'' ''pdfs/Thesis.PDF#p=2'' ([], [])
      = ([\<lparr>label = ''Final Draft'', href = ''pdfs/Thesis.PDF#p=2''\<rparr>], [''pdfs/Thesis.PDF#p=2''])"
    by code_simp
  from addAssetLink_first_link [of ?e "''Final Draft''" ?names "([], [])" "'' Thesis.PDF#p=2 ''"] np ext
  have 1: "looksLikeLink '' Thesis.PDF#p=2 ''"
    and n2: "normalizeLinkTarget '' Thesis.PDF#p=2 '' = ''pdfs/'' @ trim '' Thesis.PDF#p=2 ''"
    by blast+
  from n2 have n3: "normalizeLinkTarget '' Thesis.PDF#p=2 '' = ''pdfs/Thesis.PDF#p=2''"
    by (simp only: t append.simps)
  from addAssetLink_first_link [of ?e "''Final Draft''" ?names "([], [])" "''https://example.org/a''"] p
  have "normalizeLinkTarget ''https://example.org/a'' = trim ''https://example.org/a''"
    by blast
  then have 3: "normalizeLinkTarget ''https://example.org/a'' = ''https://example.org/a''"
    by (simp only: tp)
  from addAssetLink_first_link [of ?e "''Final Draft''" ?names "([], [])" "'' Thesis.PDF#p=2 ''"]
  have "addAssetLink ?e ''Final Draft'' ?names ([], [])
      = (case find (\<lambda>n. fld ?e n \<noteq> [] \<and> looksLikeLink (fld ?e n)) ?names of
        None \<Rightarrow> ([], [])
      | Some n \<Rightarrow> addLink ''Final Draft'' (normalizeLinkTarget (fld ?e n)) ([], []))"
    by blast
  also have "\<dots> = addLink ''Final Draft'' (normalizeLinkTarget '' Thesis.PDF#p=2 '') ([], [])"
    by (simp only: f v option.case)
  also have "\<dots> = ([\<lparr>label = ''Final Draft'', href = ''pdfs/Thesis.PDF#p=2''\<rparr>], [''pdfs/Thesis.PDF#p=2''])"
    by (simp only: n3 a)
  finally show ?thesis using np 1 n3 p 3 by blast
qed

section \<open>buildVenue and formatPatentStatus\<close>

text \<open>\<open>pieces.join(sep)\<close>, \<open>pieces.filter(Boolean)\<close> on strings, and \<open>a || b\<close> on strings, for
  strings over any type of code units.\<close>

fun join :: "'a list \<Rightarrow> 'a list list \<Rightarrow> 'a list" where
  "join sep [] = []"
| "join sep [x] = x"
| "join sep (x # y # ys) = x @ sep @ join sep (y # ys)"

definition truthy :: "'a list list \<Rightarrow> 'a list list" where
  "truthy pieces = filter (\<lambda>s. s \<noteq> []) pieces"

definition or_else :: "'a list \<Rightarrow> 'a list \<Rightarrow> 'a list" where
  "or_else a b = (if a \<noteq> [] then a else b)"

text \<open>\<open>s.split(c)\<close> for a one-character separator.\<close>

fun split_char :: "char \<Rightarrow> string \<Rightarrow> string list" where
  "split_char c [] = [[]]"
| "split_char c (x # xs) =
     (if x = c then [] # split_char c xs
      else (let r = split_char c xs in (x # hd r) # tl r))"

text \<open>
  The capital of a code unit below 256 need not be below 256. The texts that
  \<open>formatPatentStatus\<close>, \<open>buildVenue\<close> and \<open>generatePublicationHtml\<close> build are therefore
  strings of UTF-16 code units, given by their numbers; \<open>wide\<close> reads a string of code units
  below 256 as such a string.
\<close>

type_synonym ustring = "nat list"

definition wide :: "string \<Rightarrow> ustring" where
  "wide s = map of_char s"

text \<open>
  \<open>String.prototype.toUpperCase\<close> of one code unit below 256: the letters \<open>a-z\<close> and
  \<open>0xE0-0xFE\<close> (without the division sign \<open>0xF7\<close>) move down by 32, the capital of \<open>0xDF\<close>
  is \<open>SS\<close>, the capital of the micro sign \<open>0xB5\<close> is \<open>U+039C\<close> and the capital of \<open>0xFF\<close>
  is \<open>U+0178\<close>.
\<close>

definition upper_char :: "char \<Rightarrow> ustring" where
  "upper_char c = (let n = (of_char c :: nat) in
     if (97 \<le> n \<and> n \<le> 122) \<or> (224 \<le> n \<and> n \<le> 254 \<and> n \<noteq> 247) then [n - 32]
     else if n = 223 then [83, 83]
     else if n = 181 then [924]
     else if n = 255 then [376]
     else [n])"

text \<open>\<open>replace(/[\s-]+/g, "_")\<close>: every maximal run of white space and hyphens becomes
  one underscore.\<close>

function replace_separators :: "string \<Rightarrow> string" where
  "replace_separators [] = []"
| "replace_separators (c # cs) =
     (if is_space c \<or> c = CHR ''-''
      then CHR ''_'' # replace_separators (dropWhile (\<lambda>d. is_space d \<or> d = CHR ''-'') cs)
      else c # replace_separators cs)"
  by pat_completeness auto
termination
  by (relation "measure length") (auto simp: le_imp_less_Suc length_dropWhile_le)

text \<open>
  The lookup \<open>STATUS_LABELS[normalized]\<close> on an object literal also finds the properties
  inherited from \<open>Object.prototype\<close>. A lower-cased code can only name two of them,
  \<open>constructor\<close> and \<open>__proto__\<close>; both values are truthy, and the only use of the result,
  the template \<open>`Status: ${statusLabel}`\<close>, turns them into the texts below (the text of a
  native function is the one Node prints).
\<close>

definition STATUS_LABELS :: "(string \<times> string) list" where
  "STATUS_LABELS =
     [(''published_application'', ''Published application''),
      (''granted'', ''Granted''),
      (''pending'', ''Pending''),
      (''abandoned'', ''Abandoned'')]"

definition capitalize :: "string \<Rightarrow> ustring" where
  "capitalize token = (case token of [] \<Rightarrow> [] | c # cs \<Rightarrow> upper_char c @ wide cs)"

definition formatPatentStatus :: "string \<Rightarrow> ustring" where
  "formatPatentStatus status =
     (if status = [] then []
      else (let normalized = replace_separators (toLowerCase status)
            in case map_of STATUS_LABELS normalized of
                 Some l \<Rightarrow> wide l
               | None \<Rightarrow>
                   if normalized = ''constructor'' then wide ''function Object() { [native code] }''
                   else if normalized = ''__proto__'' then wide ''[object Object]''
                   else join (wide '' '')
                          (map capitalize (truthy (split_char (CHR ''_'') normalized)))))"

definition buildVenue :: "entry \<Rightarrow> ustring" where
  "buildVenue e =
     (let f = (\<lambda>name. wide (fld e name)) in
      if type e = ''article'' then
        (let pieces = [or_else (f ''journaltitle'') (f ''journal'')];
             vol = f ''volume'' @ (if f ''number'' \<noteq> [] then wide ''('' @ f ''number'' @ wide '')'' else []);
             pieces = pieces @ (if vol \<noteq> [] then [vol] else []);
             pieces = pieces @ (if f ''pages'' \<noteq> [] then [f ''pages''] else [])
         in join (wide '', '') (truthy pieces))
      else if type e = ''inproceedings'' then
        (let pieces = [or_else (f ''booktitle'') (f ''eventtitle'')];
             pieces = pieces @ (if f ''location'' \<noteq> [] then [f ''location''] else []);
             pieces = pieces @ (if f ''date'' \<noteq> [] then [f ''date'']
                                else if f ''year'' \<noteq> [] then [f ''year''] else []);
             pieces = pieces @ (if f ''pages'' \<noteq> [] then [wide ''pp. '' @ f ''pages''] else [])
         in join (wide '', '') (truthy pieces))
      else if type e = ''patent'' then
        (let pieces = [];
             statusLabel = formatPatentStatus (fld e ''status'');
             pieces = pieces @ (if statusLabel \<noteq> [] then [wide ''Status: '' @ statusLabel] else []);
             pieces = pieces @ (if f ''number'' \<noteq> [] then [f ''number''] else []);
             pieces = pieces @ (if f ''location'' \<noteq> [] then [f ''location''] else []);
             pieces = pieces @ (if f ''date'' \<noteq> [] then [f ''date''] else [])
         in join (wide '', '') (truthy pieces))
      else if type e = ''phdthesis'' \<or> type e = ''mastersthesis'' then
        (let pieces = [];
             pieces = pieces @ (if f ''school'' \<noteq> [] then [f ''school''] else []);
             pieces = pieces @ (if f ''advisor'' \<noteq> [] then [wide ''Supervisor: '' @ f ''advisor'']
                                else if f ''supervisor'' \<noteq> [] then [wide ''Supervisor: '' @ f ''supervisor'']
                                else []);
             pieces = pieces @ (if f ''year'' \<noteq> [] then [f ''year'']
                                else if f ''date'' \<noteq> [] then [f ''date''] else [])
         in join (wide '', '') (truthy pieces))
      else if type e = ''unpublished'' then
        or_else (f ''note'') (or_else (f ''year'') [])
      else
        join (wide '', '') (truthy [or_else (f ''booktitle'') (or_else (f ''journaltitle'') (or_else (f ''note'') [])),
                             or_else (f ''year'') []]))"

text \<open>\<open>buildVenue\<close> of \<open>scripts/sync-publications.mjs\<close>: no status piece for patents and
  no thesis branch.\<close>

definition buildVenue_sync :: "entry \<Rightarrow> string" where
  "buildVenue_sync e =
     (let f = fld e in
      if type e = ''article'' then
        (let pieces = [or_else (f ''journaltitle'') (f ''journal'')];
             vol = f ''volume'' @ (if f ''number'' \<noteq> [] then ''('' @ f ''number'' @ '')'' else []);
             pieces = pieces @ (if vol \<noteq> [] then [vol] else []);
             pieces = pieces @ (if f ''pages'' \<noteq> [] then [f ''pages''] else [])
         in join '', '' (truthy pieces))
      else if type e = ''inproceedings'' then
        (let pieces = [or_else (f ''booktitle'') (f ''eventtitle'')];
             pieces = pieces @ (if f ''location'' \<noteq> [] then [f ''location''] else []);
             pieces = pieces @ (if f ''date'' \<noteq> [] then [f ''date'']
                                else if f ''year'' \<noteq> [] then [f ''year''] else []);
             pieces = pieces @ (if f ''pages'' \<noteq> [] then [''pp. '' @ f ''pages''] else [])
         in join '', '' (truthy pieces))
      else if type e = ''patent'' then
        (let pieces = [];
             pieces = pieces @ (if f ''number'' \<noteq> [] then [f ''number''] else []);
             pieces = pieces @ (if f ''location'' \<noteq> [] then [f ''location''] else []);
             pieces = pieces @ (if f ''date'' \<noteq> [] then [f ''date''] else [])
         in join '', '' (truthy pieces))
      else if type e = ''unpublished'' then
        or_else (f ''note'') (or_else (f ''year'') [])
      else
        join '', '' (truthy [or_else (f ''booktitle'') (or_else (f ''journaltitle'') (or_else (f ''note'') [])),
                             or_else (f ''year'') []]))"

text \<open>The characters that never reach a status label: white space, hyphen and
  underscore.\<close>

definition is_separator :: "char \<Rightarrow> bool" where
  "is_separator c = (is_space c \<or> c = CHR ''-'' \<or> c = CHR ''_'')"

lemma truthy_split_char_empty: "(truthy (split_char c s) = []) = (\<forall>x \<in> set s. x = c)"
  by (induction s) (auto simp: truthy_def Let_def)

lemma replace_separators_all_underscore:
  "(\<forall>x \<in> set (replace_separators s). x = CHR ''_'') = (\<forall>c \<in> set s. is_separator c)"
proof (induction s rule: replace_separators.induct)
  case 1
  show ?case by simp
next
  case (2 c cs)
  let ?P = "\<lambda>d. is_space d \<or> d = CHR ''-''"
  show ?case
  proof (cases "is_space c \<or> c = CHR ''-''")
    case True
    have "(\<forall>c \<in> set cs. is_separator c) = (\<forall>c \<in> set (dropWhile ?P cs). is_separator c)"
    proof
      assume "\<forall>c \<in> set cs. is_separator c"
      then show "\<forall>c \<in> set (dropWhile ?P cs). is_separator c"
        by (meson set_dropWhileD)
    next
      assume a: "\<forall>c \<in> set (dropWhile ?P cs). is_separator c"
      have "set cs = set (takeWhile ?P cs) \<union> set (dropWhile ?P cs)"
        by (metis set_append takeWhile_dropWhile_id)
      moreover have "\<forall>c \<in> set (takeWhile ?P cs). is_separator c"
        by (auto dest: set_takeWhileD simp: is_separator_def)
      ultimately show "\<forall>c \<in> set cs. is_separator c" using a by auto
    qed
    with True 2(1) show ?thesis by (auto simp: is_separator_def)
  next
    case False
    with 2(2) show ?thesis by (auto simp: is_separator_def is_space_def)
  qed
qed

lemma join_not_empty: "xs \<noteq> [] \<Longrightarrow> \<forall>x \<in> set xs. x \<noteq> [] \<Longrightarrow> join sep xs \<noteq> []"
  by (induction sep xs rule: join.induct) auto

lemma is_separator_code: "is_separator d \<Longrightarrow> (of_char d :: nat) \<in> {9, 10, 11, 12, 13, 32, 160, 45, 95}"
  unfolding is_separator_def is_space_def by (elim disjE) simp_all

lemma lower_char_code:
  "(65 \<le> (of_char c :: nat) \<and> (of_char c :: nat) \<le> 90) \<or> (192 \<le> (of_char c :: nat) \<and> (of_char c :: nat) \<le> 222 \<and> (of_char c :: nat) \<noteq> 215)
   \<Longrightarrow> (of_char (lower_char c) :: nat) = of_char c + 32"
proof -
  assume a: "(65 \<le> (of_char c :: nat) \<and> (of_char c :: nat) \<le> 90) \<or> (192 \<le> (of_char c :: nat) \<and> (of_char c :: nat) \<le> 222 \<and> (of_char c :: nat) \<noteq> 215)"
  then have l: "lower_char c = char_of ((of_char c :: nat) + 32)"
    unfolding lower_char_def Let_def by (simp only: if_True)
  have "(of_char (char_of ((of_char c :: nat) + 32) :: char) :: nat) = ((of_char c :: nat) + 32) mod 256"
    by (rule of_char_of)
  also have "\<dots> = (of_char c :: nat) + 32" using a by (intro mod_less) linarith
  finally show ?thesis using l by (simp only:)
qed

lemma lower_char_other:
  "\<not> ((65 \<le> (of_char c :: nat) \<and> (of_char c :: nat) \<le> 90) \<or> (192 \<le> (of_char c :: nat) \<and> (of_char c :: nat) \<le> 222 \<and> (of_char c :: nat) \<noteq> 215))
   \<Longrightarrow> lower_char c = c"
  unfolding lower_char_def Let_def by (simp only: if_False)

lemma is_separator_lower_char: "is_separator (lower_char c) = is_separator c"
proof (cases "(65 \<le> (of_char c :: nat) \<and> (of_char c :: nat) \<le> 90) \<or> (192 \<le> (of_char c :: nat) \<and> (of_char c :: nat) \<le> 222 \<and> (of_char c :: nat) \<noteq> 215)")
  case False
  from lower_char_other [OF False] show ?thesis by (simp only:)
next
  case True
  note v = lower_char_code [OF True]
  have "\<not> is_separator (lower_char c)"
  proof
    assume "is_separator (lower_char c)"
    from is_separator_code [OF this] v True show False by (simp only: insert_iff empty_iff) linarith
  qed
  moreover have "\<not> is_separator c"
  proof
    assume "is_separator c"
    from is_separator_code [OF this] True show False by (simp only: insert_iff empty_iff) linarith
  qed
  ultimately show ?thesis by simp
qed

lemma status_keys_letters: "\<forall>k \<in> set (map fst STATUS_LABELS). \<exists>x \<in> set k. x \<noteq> CHR ''_''"
  by code_simp

lemma status_labels_not_empty: "\<forall>l \<in> set (map snd STATUS_LABELS). l \<noteq> []"
  by code_simp

lemma inherited_letters:
  "(\<exists>x \<in> set ''constructor''. x \<noteq> CHR ''_'') \<and> (\<exists>x \<in> set ''__proto__''. x \<noteq> CHR ''_'')"
  by code_simp

lemma capitalize_not_empty: "t \<noteq> [] \<Longrightarrow> capitalize t \<noteq> []"
  by (cases t) (auto simp: capitalize_def upper_char_def Let_def)

lemma wide_empty_iff: "(wide s = []) = (s = [])"
  by (simp add: wide_def)

lemma formatPatentStatus_cases:
  assumes "status \<noteq> []"
  shows "formatPatentStatus status =
     (case map_of STATUS_LABELS (replace_separators (toLowerCase status)) of
        Some l \<Rightarrow> wide l
      | None \<Rightarrow>
          if replace_separators (toLowerCase status) = ''constructor''
          then wide ''function Object() { [native code] }''
          else if replace_separators (toLowerCase status) = ''__proto__''
          then wide ''[object Object]''
          else join (wide '' '') (map capitalize
                 (truthy (split_char (CHR ''_'') (replace_separators (toLowerCase status))))))"
  using assms unfolding formatPatentStatus_def Let_def by (simp only: if_False)

lemma formatPatentStatus_empty_iff:
  "(formatPatentStatus status = []) = (\<forall>c \<in> set status. is_separator c)"
proof (cases "status = []")
  case True
  then show ?thesis by (simp add: formatPatentStatus_def)
next
  case False
  let ?n = "replace_separators (toLowerCase status)"
  have sep: "(\<forall>x \<in> set ?n. x = CHR ''_'') = (\<forall>c \<in> set status. is_separator c)"
    by (simp add: replace_separators_all_underscore toLowerCase_def is_separator_lower_char)
  note f = formatPatentStatus_cases [OF False]
  show ?thesis
  proof (cases "map_of STATUS_LABELS ?n")
    case (Some l)
    then have "(?n, l) \<in> set STATUS_LABELS" by (rule map_of_SomeD)
    then have k: "?n \<in> set (map fst STATUS_LABELS)" and v: "l \<in> set (map snd STATUS_LABELS)"
      by force+
    from k status_keys_letters have 1: "\<not> (\<forall>x \<in> set ?n. x = CHR ''_'')" by blast
    from v status_labels_not_empty have "l \<noteq> []" by blast
    with f Some have 2: "formatPatentStatus status \<noteq> []" by (simp add: wide_empty_iff)
    from 1 2 sep show ?thesis by simp
  next
    case None
    show ?thesis
    proof (cases "?n = ''constructor''")
      case True
      with f None have "formatPatentStatus status = wide ''function Object() { [native code] }''"
        by (simp only: option.case if_True simp_thms)
      then have 2: "formatPatentStatus status \<noteq> []" by (simp add: wide_empty_iff)
      from True inherited_letters have 1: "\<not> (\<forall>x \<in> set ?n. x = CHR ''_'')" by metis
      from 1 2 sep show ?thesis by simp
    next
      case nc: False
      show ?thesis
      proof (cases "?n = ''__proto__''")
        case True
        with f None nc have "formatPatentStatus status = wide ''[object Object]''"
          by (simp only: option.case if_True if_False simp_thms)
        then have 2: "formatPatentStatus status \<noteq> []" by (simp add: wide_empty_iff)
        from True inherited_letters have 1: "\<not> (\<forall>x \<in> set ?n. x = CHR ''_'')" by metis
        from 1 2 sep show ?thesis by simp
      next
        case np: False
        let ?t = "truthy (split_char (CHR ''_'') ?n)"
        from f None nc np
        have g: "formatPatentStatus status = join (wide '' '') (map capitalize ?t)"
          by (simp only: option.case if_False simp_thms)
        have all: "\<forall>x \<in> set (map capitalize ?t). x \<noteq> []"
          by (auto simp: truthy_def capitalize_not_empty)
        have "(join (wide '' '') (map capitalize ?t) = []) = (?t = [])"
          using join_not_empty [OF _ all, of "wide '' ''"] by auto
        with g sep show ?thesis by (simp add: truthy_split_char_empty)
      qed
    qed
  qed
qed

lemma take_join_head: "take (length x) (join sep (x # xs)) = x"
  by (cases xs) simp_all

lemma buildVenue_patent:
  assumes "type e = ''patent''"
  shows "buildVenue e = join (wide '', '')
     (truthy ((if formatPatentStatus (fld e ''status'') \<noteq> []
               then [wide ''Status: '' @ formatPatentStatus (fld e ''status'')] else [])
        @ [wide (fld e ''number''), wide (fld e ''location''), wide (fld e ''date'')]))"
  using assms by (simp add: buildVenue_def Let_def truthy_def wide_empty_iff)

text \<open>
  Claim C5, amended. For a patent entry whose status holds a character other than white
  space, hyphen and underscore, and whose normalised status code is not a property name
  that the table lookup inherits, the venue of the newer script is the piece \<open>Status: \<close>
  followed by the status label, then number, location and date where present, joined by
  \<open>, \<close>; so the venue begins with \<open>Status: \<close> and the label. For a patent entry whose status
  holds only white space, hyphens and underscores, the venue has no status piece. The label
  is the table entry when the normalised code is a key of \<open>STATUS_LABELS\<close>
  (\<open>published-application\<close> gives \<open>Published application\<close>); a code that is neither in the
  table nor an inherited property name is split at underscores, and its words are
  capitalised and joined by spaces.
\<close>

theorem buildVenue_patent_status:
  "(type e = ''patent'' \<and> (\<exists>c \<in> set (fld e ''status''). \<not> is_separator c)
      \<and> replace_separators (toLowerCase (fld e ''status'')) \<noteq> ''constructor''
      \<and> replace_separators (toLowerCase (fld e ''status'')) \<noteq> ''__proto__'' \<longrightarrow>
      formatPatentStatus (fld e ''status'') \<noteq> []
      \<and> buildVenue e = join (wide '', '') ((wide ''Status: '' @ formatPatentStatus (fld e ''status''))
            # truthy [wide (fld e ''number''), wide (fld e ''location''), wide (fld e ''date'')])
      \<and> take (length (wide ''Status: '' @ formatPatentStatus (fld e ''status''))) (buildVenue e)
          = wide ''Status: '' @ formatPatentStatus (fld e ''status''))
   \<and> (type e = ''patent'' \<and> (\<forall>c \<in> set (fld e ''status''). is_separator c) \<longrightarrow>
        buildVenue e = join (wide '', '')
          (truthy [wide (fld e ''number''), wide (fld e ''location''), wide (fld e ''date'')]))
   \<and> (status \<noteq> [] \<and> map_of STATUS_LABELS (replace_separators (toLowerCase status)) = Some l
        \<longrightarrow> formatPatentStatus status = wide l)
   \<and> formatPatentStatus ''published-application'' = wide ''Published application''
   \<and> (status \<noteq> [] \<and> map_of STATUS_LABELS (replace_separators (toLowerCase status)) = None
        \<and> replace_separators (toLowerCase status) \<noteq> ''constructor''
        \<and> replace_separators (toLowerCase status) \<noteq> ''__proto__''
        \<longrightarrow> formatPatentStatus status = join (wide '' '') (map capitalize
              (truthy (split_char (CHR ''_'') (replace_separators (toLowerCase status))))))"
proof (intro conjI impI)
  assume a: "type e = ''patent'' \<and> (\<exists>c \<in> set (fld e ''status''). \<not> is_separator c)
      \<and> replace_separators (toLowerCase (fld e ''status'')) \<noteq> ''constructor''
      \<and> replace_separators (toLowerCase (fld e ''status'')) \<noteq> ''__proto__''"
  then show ne: "formatPatentStatus (fld e ''status'') \<noteq> []"
    by (simp add: formatPatentStatus_empty_iff)
  from a ne show v: "buildVenue e = join (wide '', '') ((wide ''Status: '' @ formatPatentStatus (fld e ''status''))
            # truthy [wide (fld e ''number''), wide (fld e ''location''), wide (fld e ''date'')])"
    by (simp add: buildVenue_patent truthy_def)
  show "take (length (wide ''Status: '' @ formatPatentStatus (fld e ''status''))) (buildVenue e)
          = wide ''Status: '' @ formatPatentStatus (fld e ''status'')"
    unfolding v by (rule take_join_head)
next
  assume "type e = ''patent'' \<and> (\<forall>c \<in> set (fld e ''status''). is_separator c)"
  then show "buildVenue e = join (wide '', '')
          (truthy [wide (fld e ''number''), wide (fld e ''location''), wide (fld e ''date'')])"
    using formatPatentStatus_empty_iff [of "fld e ''status''"] by (simp add: buildVenue_patent)
next
  assume "status \<noteq> [] \<and> map_of STATUS_LABELS (replace_separators (toLowerCase status)) = Some l"
  then show "formatPatentStatus status = wide l"
    by (simp add: formatPatentStatus_cases)
next
  show "formatPatentStatus ''published-application'' = wide ''Published application''"
    by code_simp
next
  assume "status \<noteq> [] \<and> map_of STATUS_LABELS (replace_separators (toLowerCase status)) = None
        \<and> replace_separators (toLowerCase status) \<noteq> ''constructor''
        \<and> replace_separators (toLowerCase status) \<noteq> ''__proto__''"
  then show "formatPatentStatus status = join (wide '' '') (map capitalize
              (truthy (split_char (CHR ''_'') (replace_separators (toLowerCase status)))))"
    by (simp add: formatPatentStatus_cases)
qed

text \<open>
  Claim C5 as stated fails on three inputs. The non-empty status \<open>-\<close> has an empty label,
  and the guard on the label leaves the venue without a status piece. The venue of
  \<open>scripts/sync-publications.mjs\<close> never has a status piece. The status \<open>constructor\<close> is
  in no row of the table, and its label is not the capitalised word \<open>Constructor\<close> but the
  text of the function that the table lookup inherits; the status \<open>__proto__\<close> likewise
  gives the text of the inherited prototype object.
\<close>

theorem buildVenue_patent_status_counterexample:
  "type \<lparr>type = ''patent'', key = ''k'', efields = [(''status'', ''-''), (''number'', ''US1''), (''date'', ''2020'')]\<rparr> = ''patent''
   \<and> fld \<lparr>type = ''patent'', key = ''k'', efields = [(''status'', ''-''), (''number'', ''US1''), (''date'', ''2020'')]\<rparr> ''status'' \<noteq> []
   \<and> buildVenue \<lparr>type = ''patent'', key = ''k'', efields = [(''status'', ''-''), (''number'', ''US1''), (''date'', ''2020'')]\<rparr> = wide ''US1, 2020''
   \<and> take 8 (buildVenue \<lparr>type = ''patent'', key = ''k'', efields = [(''status'', ''-''), (''number'', ''US1''), (''date'', ''2020'')]\<rparr>) \<noteq> wide ''Status: ''
   \<and> buildVenue_sync \<lparr>type = ''patent'', key = ''k'', efields = [(''status'', ''published-application''), (''number'', ''US1''), (''date'', ''2020'')]\<rparr> = ''US1, 2020''
   \<and> map_of STATUS_LABELS (replace_separators (toLowerCase ''constructor'')) = None
   \<and> join (wide '' '') (map capitalize (truthy (split_char (CHR ''_'')
         (replace_separators (toLowerCase ''constructor''))))) = wide ''Constructor''
   \<and> formatPatentStatus ''constructor'' = wide ''function Object() { [native code] }''
   \<and> formatPatentStatus ''constructor'' \<noteq> wide ''Constructor''
   \<and> buildVenue \<lparr>type = ''patent'', key = ''k'', efields = [(''status'', ''constructor''), (''number'', ''US1'')]\<rparr>
       = wide ''Status: function Object() { [native code] }, US1''
   \<and> map_of STATUS_LABELS (replace_separators (toLowerCase ''__proto__'')) = None
   \<and> formatPatentStatus ''__proto__'' = wide ''[object Object]''
   \<and> formatPatentStatus ''__proto__'' \<noteq> wide ''Proto''"
  by code_simp

theorem buildVenue_patent_status_witness:
  "type \<lparr>type = ''patent'', key = ''k'',
      efields = [(''status'', ''Under review''), (''number'', ''US1''), (''date'', ''2020'')]\<rparr> = ''patent''
   \<and> (\<exists>c \<in> set (fld \<lparr>type = ''patent'', key = ''k'',
      efields = [(''status'', ''Under review''), (''number'', ''US1''), (''date'', ''2020'')]\<rparr> ''status''). \<not> is_separator c)
   \<and> map_of STATUS_LABELS (replace_separators (toLowerCase ''Under review'')) = None
   \<and> map_of STATUS_LABELS (replace_separators (toLowerCase ''Granted'')) = Some ''Granted''
   \<and> formatPatentStatus ''Granted'' = wide ''Granted''
   \<and> formatPatentStatus ''Under review'' = wide ''Under Review''
   \<and> buildVenue \<lparr>type = ''patent'', key = ''k'',
      efields = [(''status'', ''Under review''), (''number'', ''US1''), (''date'', ''2020'')]\<rparr>
       = wide ''Status: Under Review, US1, 2020''
   \<and> filter (\<lambda>c. \<not> is_separator c) (fld \<lparr>type = ''patent'', key = ''k'',
      efields = [(''status'', ''- _''), (''number'', ''US1''), (''location'', ''Ottawa'')]\<rparr> ''status'') = []
   \<and> buildVenue \<lparr>type = ''patent'', key = ''k'',
      efields = [(''status'', ''- _''), (''number'', ''US1''), (''location'', ''Ottawa'')]\<rparr>
       = wide ''US1, Ottawa''"
proof -
  let ?e = "\<lparr>type = ''patent'', key = ''k'',
      efields = [(''status'', ''Under review''), (''number'', ''US1''), (''date'', ''2020'')]\<rparr>"
  let ?d = "\<lparr>type = ''patent'', key = ''k'',
      efields = [(''status'', ''- _''), (''number'', ''US1''), (''location'', ''Ottawa'')]\<rparr>"
  have h1: "type ?e = ''patent'' \<and> (\<exists>c \<in> set (fld ?e ''status''). \<not> is_separator c)
      \<and> replace_separators (toLowerCase (fld ?e ''status'')) \<noteq> ''constructor''
      \<and> replace_separators (toLowerCase (fld ?e ''status'')) \<noteq> ''__proto__''"
    by code_simp
  have h2: "''Granted'' \<noteq> [] \<and> map_of STATUS_LABELS (replace_separators (toLowerCase ''Granted'')) = Some ''Granted''"
    by code_simp
  have h3: "''Under review'' \<noteq> [] \<and> map_of STATUS_LABELS (replace_separators (toLowerCase ''Under review'')) = None
        \<and> replace_separators (toLowerCase ''Under review'') \<noteq> ''constructor''
        \<and> replace_separators (toLowerCase ''Under review'') \<noteq> ''__proto__''"
    by code_simp
  have h4: "type ?d = ''patent'' \<and> (\<forall>c \<in> set (fld ?d ''status''). is_separator c)"
    by code_simp
  have t: "join (wide '' '') (map capitalize
              (truthy (split_char (CHR ''_'') (replace_separators (toLowerCase ''Under review'')))))
      = wide ''Under Review''"
    by code_simp
  have s: "fld ?e ''status'' = ''Under review''" by code_simp
  have j: "join (wide '', '') ((wide ''Status: '' @ wide ''Under Review'')
            # truthy [wide (fld ?e ''number''), wide (fld ?e ''location''), wide (fld ?e ''date'')])
      = wide ''Status: Under Review, US1, 2020''"
    by code_simp
  have j2: "join (wide '', '')
          (truthy [wide (fld ?d ''number''), wide (fld ?d ''location''), wide (fld ?d ''date'')])
      = wide ''US1, Ottawa''"
    by code_simp
  from buildVenue_patent_status [of ?e "''Granted''" "''Granted''"] h2
  have g: "formatPatentStatus ''Granted'' = wide ''Granted''" by blast
  from buildVenue_patent_status [of ?e "''Under review''" "''Granted''"] h3
  have "formatPatentStatus ''Under review'' = join (wide '' '') (map capitalize
              (truthy (split_char (CHR ''_'') (replace_separators (toLowerCase ''Under review'')))))"
    by blast
  with t have u: "formatPatentStatus ''Under review'' = wide ''Under Review''" by simp
  from buildVenue_patent_status [of ?e "''Granted''" "''Granted''"] h1
  have "buildVenue ?e = join (wide '', '') ((wide ''Status: '' @ formatPatentStatus (fld ?e ''status''))
            # truthy [wide (fld ?e ''number''), wide (fld ?e ''location''), wide (fld ?e ''date'')])"
    by blast
  then have v: "buildVenue ?e = wide ''Status: Under Review, US1, 2020''"
    by (simp only: s u j)
  from buildVenue_patent_status [of ?d "''Granted''" "''Granted''"] h4
  have "buildVenue ?d = join (wide '', '')
          (truthy [wide (fld ?d ''number''), wide (fld ?d ''location''), wide (fld ?d ''date'')])"
    by blast
  then have w: "buildVenue ?d = wide ''US1, Ottawa''" by (simp only: j2)
  have h5: "filter (\<lambda>c. \<not> is_separator c) (fld ?d ''status'') = []"
    by code_simp
  from h1 h2 h3 h5 g u v w show ?thesis by blast
qed

section \<open>normalizeAuthorList and generatePublicationHtml\<close>

text \<open>
  \<open>s.split(re)\<close> for a regular expression without groups that never matches the empty
  string. The matcher \<open>m\<close> gives the length of a match of \<open>re\<close> at the start of the rest
  of the text; the pieces are cut at the leftmost matches.
\<close>

function split_regex :: "(string \<Rightarrow> nat option) \<Rightarrow> string \<Rightarrow> string \<Rightarrow> string list" where
  "split_regex m cur [] = [cur]"
| "split_regex m cur (c # cs) =
     (case m (c # cs) of
        None \<Rightarrow> split_regex m (cur @ [c]) cs
      | Some n \<Rightarrow>
          if 0 < n then cur # split_regex m [] (drop n (c # cs))
          else split_regex m (cur @ [c]) cs)"
  by pat_completeness auto
termination
  by (relation "measure (\<lambda>(m, cur, s). length s)") auto

text \<open>The matchers of \<open>/\s+/\<close> and of \<open>/\s+and\s+/i\<close>. Both runs of white space are
  greedy, and the first one cannot give back a character, since \<open>a\<close> is not white space.\<close>

definition match_spaces :: "string \<Rightarrow> nat option" where
  "match_spaces s = (let n = length (takeWhile is_space s) in if 0 < n then Some n else None)"

definition match_and :: "string \<Rightarrow> nat option" where
  "match_and s =
     (let n1 = length (takeWhile is_space s);
          s1 = drop n1 s;
          s2 = drop 3 s1;
          n2 = length (takeWhile is_space s2)
      in if 0 < n1 \<and> take 3 (toLowerCase s1) = ''and'' \<and> 0 < n2 then Some (n1 + 3 + n2) else None)"

text \<open>\<open>escapeHtml\<close>: four global replacements in the order of the source.\<close>

definition replace_char :: "'a \<Rightarrow> 'a list \<Rightarrow> 'a list \<Rightarrow> 'a list" where
  "replace_char c r s = concat (map (\<lambda>x. if x = c then r else [x]) s)"

definition escapeHtml :: "string \<Rightarrow> string" where
  "escapeHtml s =
     replace_char (CHR 0x22) ''&quot;'' (replace_char (CHR ''>'') ''&gt;''
       (replace_char (CHR ''<'') ''&lt;'' (replace_char (CHR ''&'') ''&amp;'' s)))"

text \<open>\<open>escapeHtml\<close> on a string of UTF-16 code units.\<close>

definition escapeHtml_wide :: "ustring \<Rightarrow> ustring" where
  "escapeHtml_wide s =
     replace_char (of_char (CHR 0x22)) (wide ''&quot;'')
       (replace_char (of_char (CHR ''>'')) (wide ''&gt;'')
         (replace_char (of_char (CHR ''<'')) (wide ''&lt;'')
           (replace_char (of_char (CHR ''&'')) (wide ''&amp;'') s)))"

text \<open>The classes \<open>\p{L}\<close> and \<open>\p{N}\<close> on code units below 256.\<close>

definition is_letter :: "char \<Rightarrow> bool" where
  "is_letter c = (let n = (of_char c :: nat) in
     (65 \<le> n \<and> n \<le> 90) \<or> (97 \<le> n \<and> n \<le> 122) \<or> n = 170 \<or> n = 181 \<or> n = 186
     \<or> (192 \<le> n \<and> n \<le> 214) \<or> (216 \<le> n \<and> n \<le> 246) \<or> (248 \<le> n \<and> n \<le> 255))"

definition is_number :: "char \<Rightarrow> bool" where
  "is_number c = (let n = (of_char c :: nat) in
     (48 \<le> n \<and> n \<le> 57) \<or> n = 178 \<or> n = 179 \<or> n = 185 \<or> (188 \<le> n \<and> n \<le> 190))"

text \<open>The persons of an author field: split at \<open>and\<close>, trimmed, empty ones dropped.\<close>

definition people_of :: "string \<Rightarrow> string list" where
  "people_of authorField = truthy (map trim (split_regex match_and [] authorField))"

text \<open>
  The variables \<open>first\<close> and \<open>last\<close> of \<open>normalizeAuthorList\<close> for one person. With a
  comma, they are the second and the first piece of \<open>person.split(",")\<close>; a missing piece
  would be \<open>undefined\<close>, which the template prints as that word.
\<close>

definition first_last :: "string \<Rightarrow> string \<times> string" where
  "first_last person =
     (if CHR '','' \<in> set person then
        (case map trim (split_char (CHR '','') person) of
           l # f # _ \<Rightarrow> (f, l)
         | [l] \<Rightarrow> (''undefined'', l)
         | [] \<Rightarrow> (''undefined'', ''undefined''))
      else
        (let tokens = truthy (split_regex match_spaces [] person)
         in if 1 < length tokens then (join '' '' (butlast tokens), last tokens)
            else (person, [])))"

text \<open>The test \<open>/^stowe$/i\<close> on the surname without characters outside
  \<open>[\p{L}\p{N}.-]\<close>, and \<open>/symon/i\<close> or \<open>/^s(\.|$)/i\<close> on the given name.\<close>

definition isSymonStowe :: "string \<Rightarrow> string \<Rightarrow> bool" where
  "isSymonStowe first lst =
     (toLowerCase (filter (\<lambda>c. is_letter c \<or> is_number c \<or> c = CHR ''.'' \<or> c = CHR ''-'') lst) = ''stowe''
      \<and> (contains_text ''symon'' (toLowerCase first)
           \<or> (case trim first of
                 [] \<Rightarrow> False
               | c # rest \<Rightarrow> (c = CHR ''s'' \<or> c = CHR ''S'') \<and> (rest = [] \<or> hd rest = CHR ''.''))))"

definition normalizeAuthorList :: "string \<Rightarrow> string" where
  "normalizeAuthorList authorField =
     (if authorField = [] then []
      else join '', '' (map (\<lambda>person.
             (let (first, lst) = first_last person;
                  displayName = or_else (trim (first @ '' '' @ lst)) person;
                  safeName = escapeHtml displayName
              in if isSymonStowe first lst then ''<strong>'' @ safeName @ ''</strong>'' else safeName))
           (people_of authorField)))"

text \<open>\<open>normalizeAuthorList\<close> of \<open>scripts/sync-publications.mjs\<close>.\<close>

definition normalizeAuthorList_sync :: "string \<Rightarrow> string" where
  "normalizeAuthorList_sync authorField =
     (if authorField = [] then []
      else join '', '' (map (\<lambda>person.
             if CHR '','' \<in> set person
             then (let (first, lst) = first_last person in trim (first @ '' '' @ lst))
             else person)
           (people_of authorField)))"

text \<open>
  The value of \<open>TYPE_TO_CATEGORY[entry.type] || "Other"\<close>. The table is an object literal,
  so the lookup also finds the properties inherited from \<open>Object.prototype\<close>; their values
  are functions or objects, all truthy, and none of them is a string. \<open>Named c\<close> is the
  string \<open>c\<close>, and \<open>Inherited p\<close> is the value of the inherited property \<open>p\<close>.
\<close>

datatype category = Named string | Inherited string

definition object_prototype_properties :: "string list" where
  "object_prototype_properties =
     [''constructor'', ''__defineGetter__'', ''__defineSetter__'', ''hasOwnProperty'',
      ''__lookupGetter__'', ''__lookupSetter__'', ''isPrototypeOf'', ''propertyIsEnumerable'',
      ''toString'', ''valueOf'', ''__proto__'', ''toLocaleString'']"

definition CATEGORY_ORDER :: "string list" where
  "CATEGORY_ORDER = [''Publications'', ''Proceedings'', ''Patent Applications'', ''Talks'', ''Other'']"

definition TYPE_TO_CATEGORY :: "(string \<times> string) list" where
  "TYPE_TO_CATEGORY =
     [(''article'', ''Publications''),
      (''inproceedings'', ''Proceedings''),
      (''patent'', ''Patent Applications''),
      (''phdthesis'', ''Publications''),
      (''mastersthesis'', ''Publications''),
      (''unpublished'', ''Talks'')]"

definition CATEGORY_ORDER_sync :: "string list" where
  "CATEGORY_ORDER_sync = [''Publications'', ''Proceedings'', ''Patents'', ''Talks'', ''Other'']"

definition TYPE_TO_CATEGORY_sync :: "(string \<times> string) list" where
  "TYPE_TO_CATEGORY_sync =
     [(''article'', ''Publications''),
      (''inproceedings'', ''Proceedings''),
      (''patent'', ''Patents''),
      (''unpublished'', ''Talks'')]"

definition category_of :: "(string \<times> string) list \<Rightarrow> string \<Rightarrow> category" where
  "category_of table ty =
     (case map_of table ty of
        Some c \<Rightarrow> Named c
      | None \<Rightarrow> if ty \<in> set object_prototype_properties then Inherited ty else Named ''Other'')"

text \<open>
  The nested \<open>Map\<close>s of \<open>generatePublicationHtml\<close>, in insertion order, and the body of its
  first loop.
\<close>

type_synonym year_map = "(string \<times> (category \<times> entry list) list) list"

definition add_entry :: "(string \<times> string) list \<Rightarrow> year_map \<Rightarrow> entry \<Rightarrow> year_map" where
  "add_entry table byYear e =
     (let year = getYear e;
          category = category_of table (type e);
          byYear = (if map_of byYear year = None then byYear @ [(year, [])] else byYear);
          byCategory = (case map_of byYear year of None \<Rightarrow> [] | Some m \<Rightarrow> m);
          byCategory = (if map_of byCategory category = None then byCategory @ [(category, [])]
                        else byCategory);
          es = (case map_of byCategory category of None \<Rightarrow> [] | Some es \<Rightarrow> es)
      in AList.update year (AList.update category (es @ [e]) byCategory) byYear)"

text \<open>
  The comparison functions of the two sorts. \<open>Number(b) - Number(a)\<close> is \<open>NaN\<close> when either
  year is not a number, which \<open>sort\<close> reads as \<open>+0\<close>. With such years the function is not
  consistent and ECMAScript leaves the order to the implementation; the insertion sort of
  \<open>array_sort\<close> is one such order.
\<close>

definition year_compare :: "(string \<Rightarrow> 'n::linorder option) \<Rightarrow> string \<Rightarrow> string \<Rightarrow> int" where
  "year_compare Number a b =
     (case (Number b, Number a) of
        (Some y, Some x) \<Rightarrow> if y < x then - 1 else if x < y then 1 else 0
      | _ \<Rightarrow> 0)"

definition title_compare :: "(string \<Rightarrow> string \<Rightarrow> int) \<Rightarrow> entry \<Rightarrow> entry \<Rightarrow> int" where
  "title_compare localeCompare a b = localeCompare (fld a ''title'') (fld b ''title'')"

text \<open>
  The headings and entries that the second loop emits: for every year in sorted order, the
  categories of \<open>CATEGORY_ORDER\<close> that have entries in that year, each with its entries
  sorted by title.
\<close>

definition grouped ::
  "(string \<times> string) list \<Rightarrow> string list \<Rightarrow> (string \<Rightarrow> 'n::linorder option)
     \<Rightarrow> (string \<Rightarrow> string \<Rightarrow> int) \<Rightarrow> entry list \<Rightarrow> (string \<times> (string \<times> entry list) list) list" where
  "grouped table order Number localeCompare entries =
     (let byYear = foldl (add_entry table) [] entries;
          years = array_sort (year_compare Number) (map fst byYear)
      in map (\<lambda>year.
            (year,
             concat (map (\<lambda>category.
               (case map_of (case map_of byYear year of None \<Rightarrow> [] | Some m \<Rightarrow> m) (Named category) of
                  None \<Rightarrow> []
                | Some es \<Rightarrow>
                    if es = [] then []
                    else [(category, array_sort (title_compare localeCompare) es)])) order)))
          years)"

text \<open>The lines pushed for one entry, for one year, and the text returned, as strings of
  UTF-16 code units. The two scripts differ in the author formatter, the venue builder, the
  link builder and in whether the author line is escaped when it is pushed.\<close>

definition link_html :: "link \<Rightarrow> string" where
  \<open>link_html l = ''<a href="'' @ escapeHtml (href l) @ ''">['' @ escapeHtml (label l) @ '']</a>''\<close>

definition entry_lines ::
  "(string \<Rightarrow> string) \<Rightarrow> (entry \<Rightarrow> ustring) \<Rightarrow> (entry \<Rightarrow> link list) \<Rightarrow> bool \<Rightarrow> entry
     \<Rightarrow> ustring list" where
  \<open>entry_lines authorList venueOf linksOf escapeAuthors e =
     (let title = or_else (fld e ''title'') (key e);
          titleLink = or_else (fld e ''url'')
                        (if fld e ''doi'' \<noteq> [] then ''https://doi.org/'' @ fld e ''doi'' else []);
          authors = authorList (fld e ''author'');
          venue = venueOf e;
          links = linksOf e;
          linkHtml = join '' '' (map link_html links)
      in [wide ''<ul class="project_blurb">'']
         @ (if titleLink \<noteq> []
            then [wide (''  <li><a href="'' @ escapeHtml titleLink @ ''"><i>'' @ escapeHtml title
                        @ ''</i></a></li>'')]
            else [wide (''  <li><i>'' @ escapeHtml title @ ''</i></li>'')])
         @ (if authors \<noteq> []
            then [wide (''  <li>'' @ (if escapeAuthors then escapeHtml authors else authors)
                        @ ''</li>'')]
            else [])
         @ (if venue \<noteq> [] \<or> linkHtml \<noteq> []
            then [wide ''  <li>'' @ escapeHtml_wide venue @ wide '' '' @ wide linkHtml @ wide ''</li>'']
            else [])
         @ [wide ''</ul>''])\<close>

definition group_lines ::
  "(entry \<Rightarrow> ustring list) \<Rightarrow> string \<times> (string \<times> entry list) list \<Rightarrow> ustring list" where
  \<open>group_lines block g =
     wide (''<h3 class="pub_year">'' @ escapeHtml (fst g) @ ''</h3>'')
     # concat (map (\<lambda>(category, es).
         wide (''<h4 class="pub_type">'' @ escapeHtml category @ ''</h4>'') # concat (map block es))
       (snd g))\<close>

definition generatePublicationHtml ::
  "(string \<Rightarrow> bool) \<Rightarrow> (string \<Rightarrow> 'n::linorder option) \<Rightarrow> (string \<Rightarrow> string \<Rightarrow> int)
     \<Rightarrow> entry list \<Rightarrow> ustring" where
  "generatePublicationHtml assetExists Number localeCompare entries =
     join (wide [CHR 0x0A])
       (concat (map (group_lines
           (entry_lines normalizeAuthorList buildVenue (buildLinks assetExists) False))
         (grouped TYPE_TO_CATEGORY CATEGORY_ORDER Number localeCompare entries)))"

definition generatePublicationHtml_sync ::
  "(string \<Rightarrow> bool) \<Rightarrow> (string \<Rightarrow> 'n::linorder option) \<Rightarrow> (string \<Rightarrow> string \<Rightarrow> int)
     \<Rightarrow> entry list \<Rightarrow> ustring" where
  "generatePublicationHtml_sync assetExists Number localeCompare entries =
     join (wide [CHR 0x0A])
       (concat (map (group_lines
           (entry_lines normalizeAuthorList_sync (\<lambda>e. wide (buildVenue_sync e))
              (buildLinks_sync assetExists) True))
         (grouped TYPE_TO_CATEGORY_sync CATEGORY_ORDER_sync Number localeCompare entries)))"

text \<open>
  Claim C6. The record \<open>@article{k1, author = {Doe, Jane and Smith, John}, title = {T},
  year = {2020}, journal = {J}}\<close> is parsed and cleaned to one entry, which is grouped under
  the year \<open>2020\<close> in the category \<open>Publications\<close>; its author display is
  \<open>Jane Doe, John Smith\<close> and its venue is \<open>J\<close>, in both scripts.
\<close>

theorem scenario_article_k1:
  "parseBib ''@article{k1, author = {Doe, Jane and Smith, John}, title = {T}, year = {2020}, journal = {J}}''
     = Some [\<lparr>type = ''article'', key = ''k1'',
               efields = [(''author'', ''{Doe, Jane and Smith, John}''), (''title'', ''{T}''),
                          (''year'', ''{2020}''), (''journal'', ''{J}'')]\<rparr>]
   \<and> cleanEntries DROP_FIELDS Number localeCompare
        [\<lparr>type = ''article'', key = ''k1'',
          efields = [(''author'', ''{Doe, Jane and Smith, John}''), (''title'', ''{T}''),
                     (''year'', ''{2020}''), (''journal'', ''{J}'')]\<rparr>]
     = [\<lparr>type = ''article'', key = ''k1'',
         efields = [(''author'', ''Doe, Jane and Smith, John''), (''title'', ''T''),
                    (''year'', ''2020''), (''journal'', ''J'')]\<rparr>]
   \<and> grouped TYPE_TO_CATEGORY CATEGORY_ORDER Number' localeCompare
        [\<lparr>type = ''article'', key = ''k1'',
          efields = [(''author'', ''Doe, Jane and Smith, John''), (''title'', ''T''),
                     (''year'', ''2020''), (''journal'', ''J'')]\<rparr>]
     = [(''2020'', [(''Publications'',
          [\<lparr>type = ''article'', key = ''k1'',
            efields = [(''author'', ''Doe, Jane and Smith, John''), (''title'', ''T''),
                       (''year'', ''2020''), (''journal'', ''J'')]\<rparr>])])]
   \<and> category_of TYPE_TO_CATEGORY ''article'' = Named ''Publications''
   \<and> getYear \<lparr>type = ''article'', key = ''k1'',
          efields = [(''author'', ''Doe, Jane and Smith, John''), (''title'', ''T''),
                     (''year'', ''2020''), (''journal'', ''J'')]\<rparr> = ''2020''
   \<and> normalizeAuthorList ''Doe, Jane and Smith, John'' = ''Jane Doe, John Smith''
   \<and> buildVenue \<lparr>type = ''article'', key = ''k1'',
          efields = [(''author'', ''Doe, Jane and Smith, John''), (''title'', ''T''),
                     (''year'', ''2020''), (''journal'', ''J'')]\<rparr> = wide ''J''
   \<and> category_of TYPE_TO_CATEGORY_sync ''article'' = Named ''Publications''
   \<and> normalizeAuthorList_sync ''Doe, Jane and Smith, John'' = ''Jane Doe, John Smith''
   \<and> buildVenue_sync \<lparr>type = ''article'', key = ''k1'',
          efields = [(''author'', ''Doe, Jane and Smith, John''), (''title'', ''T''),
                     (''year'', ''2020''), (''journal'', ''J'')]\<rparr> = ''J''"
proof -
  let ?raw = "\<lparr>type = ''article'', key = ''k1'',
               efields = [(''author'', ''{Doe, Jane and Smith, John}''), (''title'', ''{T}''),
                          (''year'', ''{2020}''), (''journal'', ''{J}'')]\<rparr>"
  let ?e = "\<lparr>type = ''article'', key = ''k1'',
         efields = [(''author'', ''Doe, Jane and Smith, John''), (''title'', ''T''),
                    (''year'', ''2020''), (''journal'', ''J'')]\<rparr>"
  have p: "parseBib ''@article{k1, author = {Doe, Jane and Smith, John}, title = {T}, year = {2020}, journal = {J}}''
     = Some [?raw]"
    by code_simp
  have ce: "clean_entry DROP_FIELDS ?raw = ?e" by code_simp
  have c: "cleanEntries DROP_FIELDS Number localeCompare [?raw] = [?e]"
    unfolding cleanEntries_def by (simp only: list.map array_sort.simps insert_sorted.simps ce)
  have y: "foldl (add_entry TYPE_TO_CATEGORY) [] [?e] = [(''2020'', [(Named ''Publications'', [?e])])]"
    by code_simp
  have g: "grouped TYPE_TO_CATEGORY CATEGORY_ORDER Number' localeCompare [?e]
     = [(''2020'', [(''Publications'', [?e])])]"
    unfolding grouped_def Let_def y
    by (simp add: CATEGORY_ORDER_def)
  have a: "normalizeAuthorList ''Doe, Jane and Smith, John'' = ''Jane Doe, John Smith''"
    by code_simp
  have v: "buildVenue ?e = wide ''J''" by code_simp
  have k: "category_of TYPE_TO_CATEGORY ''article'' = Named ''Publications''" by code_simp
  have yr: "getYear ?e = ''2020''" by code_simp
  have k': "category_of TYPE_TO_CATEGORY_sync ''article'' = Named ''Publications''" by code_simp
  have a': "normalizeAuthorList_sync ''Doe, Jane and Smith, John'' = ''Jane Doe, John Smith''"
    by code_simp
  have v': "buildVenue_sync ?e = ''J''" by code_simp
  from p c g a v k yr k' a' v' show ?thesis by blast
qed

text \<open>
  Claim C7 fails on the code. The record \<open>@constructor{k, title = {T}, year = {2020}}\<close> is
  parsed and cleaned to one entry. Its type names a property inherited from
  \<open>Object.prototype\<close>, so its category is not a string of \<open>CATEGORY_ORDER\<close>: the year heading
  is emitted with no category and no entry under it.
\<close>

theorem generatePublicationHtml_drops_inherited_type:
  \<open>parseBib ''@constructor{k, title = {T}, year = {2020}}''
     = Some [\<lparr>type = ''constructor'', key = ''k'',
               efields = [(''title'', ''{T}''), (''year'', ''{2020}'')]\<rparr>]
   \<and> cleanEntries DROP_FIELDS Number localeCompare
        [\<lparr>type = ''constructor'', key = ''k'',
          efields = [(''title'', ''{T}''), (''year'', ''{2020}'')]\<rparr>]
     = [\<lparr>type = ''constructor'', key = ''k'', efields = [(''title'', ''T''), (''year'', ''2020'')]\<rparr>]
   \<and> category_of TYPE_TO_CATEGORY ''constructor'' = Inherited ''constructor''
   \<and> grouped TYPE_TO_CATEGORY CATEGORY_ORDER Number' localeCompare
        [\<lparr>type = ''constructor'', key = ''k'', efields = [(''title'', ''T''), (''year'', ''2020'')]\<rparr>]
     = [(''2020'', [])]
   \<and> generatePublicationHtml assetExists Number' localeCompare
        [\<lparr>type = ''constructor'', key = ''k'', efields = [(''title'', ''T''), (''year'', ''2020'')]\<rparr>]
     = wide ''<h3 class="pub_year">2020</h3>''\<close>
proof -
  let ?raw = "\<lparr>type = ''constructor'', key = ''k'',
               efields = [(''title'', ''{T}''), (''year'', ''{2020}'')]\<rparr>"
  let ?e = "\<lparr>type = ''constructor'', key = ''k'', efields = [(''title'', ''T''), (''year'', ''2020'')]\<rparr>"
  have p: "parseBib ''@constructor{k, title = {T}, year = {2020}}'' = Some [?raw]"
    by code_simp
  have ce: "clean_entry DROP_FIELDS ?raw = ?e" by code_simp
  have c: "cleanEntries DROP_FIELDS Number localeCompare [?raw] = [?e]"
    unfolding cleanEntries_def by (simp only: list.map array_sort.simps insert_sorted.simps ce)
  have k: "category_of TYPE_TO_CATEGORY ''constructor'' = Inherited ''constructor''"
    by code_simp
  have y: "foldl (add_entry TYPE_TO_CATEGORY) [] [?e] = [(''2020'', [(Inherited ''constructor'', [?e])])]"
    by code_simp
  have g: "grouped TYPE_TO_CATEGORY CATEGORY_ORDER Number' localeCompare [?e] = [(''2020'', [])]"
    unfolding grouped_def Let_def y
    by (simp add: CATEGORY_ORDER_def)
  have h: \<open>generatePublicationHtml assetExists Number' localeCompare [?e]
      = wide ''<h3 class="pub_year">2020</h3>''\<close>
    unfolding generatePublicationHtml_def g
    by (simp add: group_lines_def escapeHtml_def replace_char_def)
  from p c k g h show ?thesis by blast
qed


section \<open>writeCleanBib and the round trip through parseBib and cleanEntries\<close>

text \<open>
  The text that \<open>writeCleanBib\<close> writes, the same function in both scripts: one chunk
  per entry, made of the line \<open>@type{key,\<close>, one line \<open>  name = {value},\<close> for every
  field name in the order of \<open>Object.keys(entry.fields).sort()\<close>, which compares names
  by code units, and the line \<open>}\<close>; the chunks are joined by an empty line and followed
  by a line feed.
\<close>

definition entry_chunk :: "entry \<Rightarrow> string" where
  "entry_chunk e =
     join [CHR 0x0A]
       ((''@'' @ type e @ ''{'' @ key e @ '','')
        # map (\<lambda>name. ''  '' @ name @ '' = {'' @ fld e name @ ''},'')
            (array_sort code_unit_compare (map fst (efields e)))
        @ [''}''])"

definition writeCleanBib :: "entry list \<Rightarrow> string" where
  "writeCleanBib entries = join [CHR 0x0A, CHR 0x0A] (map entry_chunk entries) @ [CHR 0x0A]"

text \<open>
  The fields of an entry in the order in which the loop of \<open>writeCleanBib\<close> visits them.
\<close>

definition sorted_fields :: "entry \<Rightarrow> (string \<times> string) list" where
  "sorted_fields e =
     map (\<lambda>n. (n, fld e n)) (array_sort code_unit_compare (map fst (efields e)))"

text \<open>
  The shape of the entries that \<open>parseBib\<close> produces: the type matches \<open>[a-z]*\<close>, the key
  is trimmed and has no comma, and the field names are distinct own properties that match
  \<open>[a-z0-9_-]*\<close>.
\<close>

definition lower_type :: "string \<Rightarrow> bool" where
  "lower_type ty = (\<forall>c \<in> set ty. is_alpha c \<and> lower_char c = c)"

definition plain_key :: "string \<Rightarrow> bool" where
  "plain_key k = (trim k = k \<and> CHR '','' \<notin> set k)"

definition lower_name :: "string \<Rightarrow> bool" where
  "lower_name n = (\<forall>c \<in> set n. is_name_char c \<and> lower_char c = c)"

definition named_fields :: "fields \<Rightarrow> bool" where
  "named_fields fs = (own_properties fs \<and> (\<forall>nv \<in> set fs. lower_name (fst nv)))"

definition parsed_shape :: "entry \<Rightarrow> bool" where
  "parsed_shape e = (lower_type (type e) \<and> plain_key (key e) \<and> named_fields (efields e))"

text \<open>
  A normalized value: not empty, without braces, every white space character a space, no
  two spaces in a row and none at either end; such a value is on a single line. A value
  is free of escapes when none of the sequences \<open>\&\<close>, \<open>\,\<close> and \<open>\%\<close>, which \<open>bibToText\<close>
  expands, occurs in it.
\<close>

fun adjacent :: "char \<Rightarrow> char \<Rightarrow> string \<Rightarrow> bool" where
  "adjacent a b (x # y # rest) = ((x = a \<and> y = b) \<or> adjacent a b (y # rest))"
| "adjacent a b s = False"

definition normalized_value :: "string \<Rightarrow> bool" where
  "normalized_value v =
     (v \<noteq> [] \<and> CHR ''{'' \<notin> set v \<and> CHR ''}'' \<notin> set v
      \<and> (\<forall>c \<in> set v. is_space c \<longrightarrow> c = CHR '' '')
      \<and> \<not> adjacent (CHR '' '') (CHR '' '') v
      \<and> hd v \<noteq> CHR '' '' \<and> last v \<noteq> CHR '' '')"

definition escape_free :: "string \<Rightarrow> bool" where
  "escape_free v =
     (\<not> adjacent (CHR 0x5C) (CHR ''&'') v \<and> \<not> adjacent (CHR 0x5C) (CHR '','') v
      \<and> \<not> adjacent (CHR 0x5C) (CHR ''%'') v)"

text \<open>
  A normalized entry with respect to a denylist: an entry of the shape that the parser
  produces, whose field names are outside the denylist, and whose values are normalized
  and free of escapes. Without the condition on escapes, these are the fields that
  \<open>cleanEntries\<close> builds.
\<close>

definition normalized_entry :: "string list \<Rightarrow> entry \<Rightarrow> bool" where
  "normalized_entry dropped e =
     (lower_type (type e) \<and> plain_key (key e) \<and> own_properties (efields e)
      \<and> (\<forall>nv \<in> set (efields e). lower_name (fst nv) \<and> fst nv \<notin> set dropped
            \<and> normalized_value (snd nv) \<and> escape_free (snd nv)))"

definition cleaned_fields :: "string list \<Rightarrow> fields \<Rightarrow> bool" where
  "cleaned_fields dropped fs =
     (own_properties fs
      \<and> (\<forall>nv \<in> set fs. lower_name (fst nv) \<and> fst nv \<notin> set dropped \<and> normalized_value (snd nv)))"

text \<open>
  The entry with its fields listed by ascending name. Two records stand for the same
  entry when they agree on type, key and the value of every field name.
\<close>

definition canonical_entry :: "entry \<Rightarrow> entry" where
  "canonical_entry e = \<lparr>type = type e, key = key e, efields = sorted_fields e\<rparr>"

definition same_entry :: "entry \<Rightarrow> entry \<Rightarrow> bool" where
  "same_entry a b = (type a = type b \<and> key a = key b \<and> map_of (efields a) = map_of (efields b))"

text \<open>
  Auxiliary notions of the proofs: a value without braces; the text of one field line and
  of all field lines; the fields that \<open>parseBib\<close> reads from these lines, each value in
  its braces; the entry read from a chunk; the written text as a recursion over the
  entries; the part of the shape of an entry that the parser depends on; and one step of
  the loop in \<open>cleanEntries\<close>.
\<close>

definition brace_free :: "string \<Rightarrow> bool" where
  "brace_free v = (CHR ''{'' \<notin> set v \<and> CHR ''}'' \<notin> set v)"

definition field_text :: "string \<times> string \<Rightarrow> string" where
  "field_text nv = [CHR 0x0A, CHR '' '', CHR '' ''] @ fst nv @ '' = {'' @ snd nv @ ''}''"

definition fields_text :: "(string \<times> string) list \<Rightarrow> string" where
  "fields_text nvs = concat (map (\<lambda>nv. field_text nv @ [CHR '','']) nvs)"

definition braced :: "(string \<times> string) list \<Rightarrow> fields \<Rightarrow> fields" where
  "braced nvs fs = foldl (\<lambda>acc nv. obj_set acc (fst nv) (CHR ''{'' # snd nv @ [CHR ''}''])) fs nvs"

definition parsed :: "entry \<Rightarrow> entry" where
  "parsed e = \<lparr>type = type e, key = key e, efields = braced (sorted_fields e) []\<rparr>"

fun body :: "entry list \<Rightarrow> string" where
  "body [] = [CHR 0x0A]"
| "body (e # es) = entry_chunk e @ (if es = [] then [] else [CHR 0x0A, CHR 0x0A]) @ body es"

definition shaped :: "entry \<Rightarrow> bool" where
  "shaped e = (lower_type (type e) \<and> plain_key (key e)
     \<and> (\<forall>nv \<in> set (efields e). lower_name (fst nv) \<and> brace_free (snd nv)))"

definition clean_step :: "string list \<Rightarrow> fields \<Rightarrow> string \<times> string \<Rightarrow> fields" where
  "clean_step dropped acc nr =
     (if fst nr \<in> set dropped then acc
      else (let normalized = bibToText (snd nr)
            in if normalized = [] then acc else obj_set acc (fst nr) normalized))"

subsection \<open>Reading back what was written\<close>

lemma drop_at_length: "drop p tex = x # xs \<Longrightarrow> p < length tex"
  by (metis drop_all linorder_not_less list.distinct(1))

lemma char_at_drop: "drop p tex = c # ys \<Longrightarrow> char_at tex p = Some c"
  using drop_at_length [of p tex c ys]
  by (simp add: char_at_def) (metis nth_via_drop)

lemma char_at_drop_Nil: "drop p tex = [] \<Longrightarrow> char_at tex p = None"
  by (simp add: char_at_def)

lemma drop_advance: "drop p tex = xs @ ys \<Longrightarrow> drop (p + length xs) tex = ys"
  by (metis add.commute append_eq_conv_conj drop_drop)

lemma slice_drop: "drop p tex = xs @ ys \<Longrightarrow> slice tex p (p + length xs) = xs"
  by (simp add: slice_def)

lemma skip_while_drop:
  "drop p tex = xs @ ys \<Longrightarrow> \<forall>c \<in> set xs. P c \<Longrightarrow> ys = [] \<or> \<not> P (hd ys)
     \<Longrightarrow> skip_while P tex p = p + length xs"
proof (induction xs arbitrary: p)
  case Nil
  show ?case
  proof (cases ys)
    case Nil
    with \<open>drop p tex = [] @ ys\<close> have "length tex \<le> p" by simp
    then show ?thesis by (simp add: skip_while_beyond)
  next
    case (Cons y ys')
    with Nil have d: "drop p tex = y # ys'" and n: "\<not> P y" by auto
    from d have "p < length tex" by (rule drop_at_length)
    moreover from d have "tex ! p = y" by (metis nth_via_drop)
    ultimately show ?thesis using n by (subst skip_while.simps) simp
  qed
next
  case (Cons x xs)
  from Cons.prems(1) have d: "drop p tex = x # (xs @ ys)" by simp
  then have lt: "p < length tex" by (rule drop_at_length)
  from d have x: "tex ! p = x" by (metis nth_via_drop)
  from d have "drop (p + 1) tex = xs @ ys"
    by (metis Suc_eq_plus1 drop_Suc drop_drop list.sel(3) tl_drop)
  with Cons.IH [of "p + 1"] Cons.prems have "skip_while P tex (p + 1) = p + 1 + length xs" by simp
  with lt x Cons.prems(2) show ?case by (subst skip_while.simps) simp
qed

lemma read_braces_drop:
  "drop p tex = v @ CHR ''}'' # ys \<Longrightarrow> CHR ''{'' \<notin> set v \<Longrightarrow> CHR ''}'' \<notin> set v
     \<Longrightarrow> read_braces tex p 1 = p + length v + 1"
proof (induction v arbitrary: p)
  case Nil
  then have d: "drop p tex = CHR ''}'' # ys" by simp
  then have "p < length tex" by (rule drop_at_length)
  moreover from d have "tex ! p = CHR ''}''" by (metis nth_via_drop)
  ultimately show ?case by (subst read_braces.simps) simp
next
  case (Cons x v)
  from Cons.prems(1) have d: "drop p tex = x # (v @ CHR ''}'' # ys)" by simp
  then have lt: "p < length tex" by (rule drop_at_length)
  from d have x: "tex ! p = x" by (metis nth_via_drop)
  from d have "drop (p + 1) tex = v @ CHR ''}'' # ys"
    by (metis Suc_eq_plus1 drop_Suc drop_drop list.sel(3) tl_drop)
  with Cons.IH [of "p + 1"] Cons.prems have "read_braces tex (p + 1) 1 = p + 1 + length v + 1" by simp
  moreover from Cons.prems(2,3) have "x \<noteq> CHR ''{''" "x \<noteq> CHR ''}''" by auto
  ultimately show ?case using lt x by (subst read_braces.simps) simp
qed

lemma readBibValue_braced:
  assumes d: "drop p tex = CHR ''{'' # v @ CHR ''}'' # ys"
    and v: "CHR ''{'' \<notin> set v" "CHR ''}'' \<notin> set v"
  shows "readBibValue tex p = (CHR ''{'' # v @ [CHR ''}''], p + length v + 2)"
proof -
  from d have c: "char_at tex p = Some (CHR ''{'')" by (rule char_at_drop)
  from d have lt: "p < length tex" by (rule drop_at_length)
  from d have x: "tex ! p = CHR ''{''" by (metis nth_via_drop)
  from d have "drop (p + 1) tex = v @ CHR ''}'' # ys"
    by (metis Suc_eq_plus1 drop_Suc drop_drop list.sel(3) tl_drop)
  from read_braces_drop [OF this v] have "read_braces tex (p + 1) 1 = p + length v + 2" by simp
  with lt x have r: "read_braces tex p 0 = p + length v + 2" by (subst read_braces.simps) simp
  from d have "drop p tex = (CHR ''{'' # v @ [CHR ''}'']) @ ys" by simp
  from slice_drop [OF this] have "slice tex p (p + length v + 2) = CHR ''{'' # v @ [CHR ''}'']"
    by simp
  with c r show ?thesis by (simp add: readBibValue_def)
qed

lemma not_name_chars:
  "\<not> is_name_char (CHR 0x09)" "\<not> is_name_char (CHR 0x0A)" "\<not> is_name_char (CHR 0x0B)"
  "\<not> is_name_char (CHR 0x0C)" "\<not> is_name_char (CHR 0x0D)" "\<not> is_name_char (CHR 0x20)"
  "\<not> is_name_char (CHR 0xA0)" "\<not> is_name_char (CHR '','')" "\<not> is_name_char (CHR ''}'')"
  "\<not> is_name_char (CHR ''='')" "\<not> is_name_char (CHR ''{'')"
  by code_simp+

lemma is_name_char_not_sep:
  "is_name_char c \<Longrightarrow> \<not> is_space c \<and> c \<noteq> CHR '','' \<and> c \<noteq> CHR ''}'' \<and> c \<noteq> CHR ''=''"
  using not_name_chars by (auto simp: is_space_def)

lemma not_space_chars:
  "\<not> is_space (CHR ''='')" "\<not> is_space (CHR ''{'')" "\<not> is_space (CHR ''}'')"
  "\<not> is_space (CHR '','')" "\<not> is_space (CHR ''@'')" "is_space (CHR 0x0A)" "is_space (CHR '' '')"
  by code_simp+

lemma trim_braced: "trim (CHR ''{'' # v @ [CHR ''}'']) = CHR ''{'' # v @ [CHR ''}'']"
  by (simp add: trim_def not_space_chars)

lemma toLowerCase_lower_name: "lower_name n \<Longrightarrow> toLowerCase n = n"
  by (simp add: lower_name_def toLowerCase_def map_idI)

lemma drop_advance_to: "drop p tex = xs @ ys \<Longrightarrow> q = p + length xs \<Longrightarrow> drop q tex = ys"
  by (simp add: drop_advance)

lemma skip_while_drop_to:
  "drop p tex = xs @ ys \<Longrightarrow> \<forall>c \<in> set xs. P c \<Longrightarrow> ys = [] \<or> \<not> P (hd ys)
     \<Longrightarrow> q = p + length xs \<Longrightarrow> skip_while P tex p = q"
  by (simp add: skip_while_drop)

lemma slice_drop_to: "drop p tex = xs @ ys \<Longrightarrow> q = p + length xs \<Longrightarrow> slice tex p q = xs"
  by (simp add: slice_drop)

lemma parse_fields_step:
  assumes T: "drop p tex = S @ field_text (n, v) @ CHR '','' # R"
    and S: "\<forall>c \<in> set S. is_space c \<or> c = CHR '',''"
    and n: "lower_name n" and v: "brace_free v"
  shows "parse_fields tex p fs =
           parse_fields tex (p + length S + length (field_text (n, v)))
             (obj_set fs n (CHR ''{'' # v @ [CHR ''}'']))
         \<and> drop (p + length S + length (field_text (n, v))) tex = CHR '','' # R"
proof -
  let ?sep = "\<lambda>c. is_space c \<or> c = CHR '',''"
  let ?tail = "CHR ''{'' # v @ CHR ''}'' # CHR '','' # R"
  define i3 where "i3 = p + length S + 3 + length n + 1"
  define i1 where "i1 = (if n = [] then i3 else p + length S + 3)"
  define i2 where "i2 = (if n = [] then i3 else p + length S + 3 + length n)"
  define i4 where "i4 = i3 + 2"
  define nxt where "nxt = i4 + length v + 2"
  from T have lt: "p < length tex"
    by (cases S) (auto simp: field_text_def dest: drop_at_length)
  have steps: "skip_while ?sep tex p = i1 \<and> char_at tex i1 \<noteq> Some (CHR ''}'')
      \<and> skip_while is_name_char tex i1 = i2 \<and> slice tex i1 i2 = n
      \<and> skip_while is_space tex i2 = i3 \<and> drop i3 tex = CHR ''='' # CHR '' '' # ?tail"
  proof (cases "n = []")
    case True
    then have eq: "i1 = i3" "i2 = i3" by (simp_all add: i1_def i2_def)
    from T True have d0: "drop p tex = (S @ [CHR 0x0A, CHR '' '', CHR '' '', CHR '' ''])
        @ (CHR ''='' # CHR '' '' # ?tail)"
      by (simp add: field_text_def)
    have a: "skip_while ?sep tex p = i3"
      by (rule skip_while_drop_to [OF d0]) (use S True in \<open>auto simp: not_space_chars i3_def\<close>)
    have d1: "drop i3 tex = CHR ''='' # CHR '' '' # ?tail"
      by (rule drop_advance_to [OF d0]) (use True in \<open>simp add: i3_def\<close>)
    then have b: "char_at tex i3 \<noteq> Some (CHR ''}'')" by (simp add: char_at_drop)
    from d1 have d1': "drop i3 tex = [] @ (CHR ''='' # CHR '' '' # ?tail)" by simp
    have c: "skip_while is_name_char tex i3 = i3"
      by (rule skip_while_drop_to [OF d1']) (simp_all add: not_name_chars)
    have d: "slice tex i3 i3 = n" using True by simp
    have e: "skip_while is_space tex i3 = i3"
      by (rule skip_while_drop_to [OF d1']) (simp_all add: not_space_chars)
    from a b c d e d1 show ?thesis unfolding eq by blast
  next
    case False
    then have eq: "i1 = p + length S + 3" "i2 = i1 + length n" "i3 = i2 + 1"
      by (simp_all add: i1_def i2_def i3_def)
    from False obtain x xs where nx: "n = x # xs" by (cases n) auto
    with n have x: "is_name_char x" by (simp add: lower_name_def)
    from T have d0: "drop p tex = (S @ [CHR 0x0A, CHR '' '', CHR '' ''])
        @ (n @ CHR '' '' # CHR ''='' # CHR '' '' # ?tail)"
      by (simp add: field_text_def)
    have a: "skip_while ?sep tex p = i1"
      by (rule skip_while_drop_to [OF d0])
        (use S nx is_name_char_not_sep [OF x] in \<open>auto simp: not_space_chars eq\<close>)
    have d1: "drop i1 tex = n @ (CHR '' '' # CHR ''='' # CHR '' '' # ?tail)"
      by (rule drop_advance_to [OF d0]) (simp add: eq)
    with nx have "char_at tex i1 = Some x" by (simp add: char_at_drop)
    with is_name_char_not_sep [OF x] have b: "char_at tex i1 \<noteq> Some (CHR ''}'')" by simp
    have c: "skip_while is_name_char tex i1 = i2"
      by (rule skip_while_drop_to [OF d1]) (use n in \<open>auto simp: lower_name_def not_name_chars eq\<close>)
    have d: "slice tex i1 i2 = n"
      by (rule slice_drop_to [OF d1]) (simp add: eq)
    have "drop i2 tex = CHR '' '' # CHR ''='' # CHR '' '' # ?tail"
      by (rule drop_advance_to [OF d1]) (simp add: eq)
    then have d2: "drop i2 tex = [CHR '' ''] @ (CHR ''='' # CHR '' '' # ?tail)" by simp
    have e: "skip_while is_space tex i2 = i3"
      by (rule skip_while_drop_to [OF d2]) (auto simp: not_space_chars eq)
    have f: "drop i3 tex = CHR ''='' # CHR '' '' # ?tail"
      by (rule drop_advance_to [OF d2]) (simp add: eq)
    from a b c d e f show ?thesis by blast
  qed
  then have e1: "skip_while ?sep tex p = i1" and c1: "char_at tex i1 \<noteq> Some (CHR ''}'')"
    and e2: "skip_while is_name_char tex i1 = i2" and sl: "slice tex i1 i2 = n"
    and e3: "skip_while is_space tex i2 = i3"
    and d3: "drop i3 tex = CHR ''='' # CHR '' '' # ?tail"
    by blast+
  from d3 have c3: "char_at tex i3 = Some (CHR ''='')" by (rule char_at_drop)
  from d3 have d3a: "drop i3 tex = [CHR ''=''] @ (CHR '' '' # ?tail)" by simp
  have "drop (i3 + 1) tex = CHR '' '' # ?tail"
    by (rule drop_advance_to [OF d3a]) simp
  then have d3': "drop (i3 + 1) tex = [CHR '' ''] @ ?tail" by simp
  have e4: "skip_while is_space tex (i3 + 1) = i4"
    by (rule skip_while_drop_to [OF d3']) (auto simp: not_space_chars i4_def)
  have d4: "drop i4 tex = CHR ''{'' # v @ CHR ''}'' # (CHR '','' # R)"
    by (rule drop_advance_to [OF d3']) (simp add: i4_def)
  from readBibValue_braced [OF d4] v
  have rb: "readBibValue tex i4 = (CHR ''{'' # v @ [CHR ''}''], nxt)"
    by (simp add: brace_free_def nxt_def)
  from d4 have d4a: "drop i4 tex = (CHR ''{'' # v @ [CHR ''}'']) @ (CHR '','' # R)" by simp
  have d5: "drop nxt tex = CHR '','' # R"
    by (rule drop_advance_to [OF d4a]) (simp add: nxt_def)
  have pos: "nxt = p + length S + length (field_text (n, v))"
    by (simp add: nxt_def i4_def i3_def field_text_def)
  have "parse_fields tex p fs = parse_fields tex nxt (obj_set fs n (CHR ''{'' # v @ [CHR ''}'']))"
    by (subst parse_fields.simps)
      (use e4 in \<open>simp add: lt e1 c1 e2 sl e3 c3 rb Let_def toLowerCase_lower_name [OF n] trim_braced\<close>)
  with d5 pos show ?thesis by simp
qed

lemma parse_fields_all:
  assumes "\<forall>nv \<in> set nvs. lower_name (fst nv) \<and> brace_free (snd nv)"
    and "drop p tex = S @ fields_text nvs @ CHR 0x0A # CHR ''}'' # post"
    and "\<forall>c \<in> set S. is_space c \<or> c = CHR '',''"
  shows "parse_fields tex p fs = (p + length S + length (fields_text nvs) + 2, braced nvs fs)"
  using assms
proof (induction nvs arbitrary: p S fs)
  case Nil
  let ?sep = "\<lambda>c. is_space c \<or> c = CHR '',''"
  from Nil.prems(2) have d0: "drop p tex = (S @ [CHR 0x0A]) @ (CHR ''}'' # post)"
    by (simp add: fields_text_def)
  then have lt: "p < length tex" by (cases S) (auto dest: drop_at_length)
  define i1 where "i1 = p + length S + 1"
  have e1: "skip_while ?sep tex p = i1"
    by (rule skip_while_drop_to [OF d0]) (use Nil.prems(3) in \<open>auto simp: not_space_chars i1_def\<close>)
  have "drop i1 tex = CHR ''}'' # post"
    by (rule drop_advance_to [OF d0]) (simp add: i1_def)
  then have c1: "char_at tex i1 = Some (CHR ''}'')" by (rule char_at_drop)
  have "parse_fields tex p fs = (i1 + 1, fs)"
    by (subst parse_fields.simps) (simp add: lt e1 c1 Let_def)
  then show ?case by (simp add: i1_def fields_text_def braced_def)
next
  case (Cons nv nvs)
  obtain n v where nv: "nv = (n, v)" by (cases nv)
  let ?R = "fields_text nvs @ CHR 0x0A # CHR ''}'' # post"
  from Cons.prems(2) nv have T: "drop p tex = S @ field_text (n, v) @ CHR '','' # ?R"
    by (simp add: fields_text_def)
  from Cons.prems(1) nv have ok: "lower_name n" "brace_free v" by simp_all
  let ?p = "p + length S + length (field_text (n, v))"
  let ?fs = "obj_set fs n (CHR ''{'' # v @ [CHR ''}''])"
  from parse_fields_step [OF T Cons.prems(3) ok, of fs]
  have st: "parse_fields tex p fs = parse_fields tex ?p ?fs" and d: "drop ?p tex = CHR '','' # ?R"
    by blast+
  from d have d': "drop ?p tex = [CHR '',''] @ fields_text nvs @ CHR 0x0A # CHR ''}'' # post"
    by simp
  from Cons.prems(1) have rest: "\<forall>nv \<in> set nvs. lower_name (fst nv) \<and> brace_free (snd nv)"
    by simp
  have "parse_fields tex ?p ?fs
      = (?p + length [CHR '',''] + length (fields_text nvs) + 2, braced nvs ?fs)"
    by (rule Cons.IH [OF rest d']) simp
  with st nv show ?case by (simp add: fields_text_def braced_def)
qed

lemma not_alpha_chars: "\<not> is_alpha (CHR ''{'')" "\<not> is_alpha (CHR 0x09)" "\<not> is_alpha (CHR 0x0A)"
  "\<not> is_alpha (CHR 0x0B)" "\<not> is_alpha (CHR 0x0C)" "\<not> is_alpha (CHR 0x0D)"
  "\<not> is_alpha (CHR 0x20)" "\<not> is_alpha (CHR 0xA0)"
  by code_simp+

lemma is_alpha_not_space: "is_alpha c \<Longrightarrow> \<not> is_space c"
  using not_alpha_chars by (auto simp: is_space_def)

lemma trim_hd_not_space:
  assumes "trim k = k" "k \<noteq> []"
  shows "\<not> is_space (hd k)"
proof
  assume sp: "is_space (hd k)"
  with assms(2) have "length (dropWhile is_space k) < length k"
    by (cases k) (auto simp: le_imp_less_Suc length_dropWhile_le)
  moreover have "length (trim k) \<le> length (dropWhile is_space k)"
    unfolding trim_def by (metis length_dropWhile_le length_rev)
  ultimately show False using assms(1) by simp
qed

lemma toLowerCase_lower_type: "lower_type ty \<Longrightarrow> toLowerCase ty = ty"
  by (simp add: lower_type_def toLowerCase_def map_idI)

lemma parse_record_chunk:
  assumes T: "drop p tex = ty @ CHR ''{'' # k @ CHR '','' # fields_text nvs @ CHR 0x0A # CHR ''}'' # post"
    and ty: "lower_type ty" and k: "plain_key k"
    and nvs: "\<forall>nv \<in> set nvs. lower_name (fst nv) \<and> brace_free (snd nv)"
  shows "parse_record tex p =
           (p + length ty + 1 + length k + 1 + length (fields_text nvs) + 2,
            Some \<lparr>type = ty, key = k, efields = braced nvs []\<rparr>)"
proof -
  let ?F = "fields_text nvs @ CHR 0x0A # CHR ''}'' # post"
  define ib where "ib = p + length ty"
  define ie where "ie = ib + 1 + length k"
  have first: "\<not> is_space (hd (ty @ CHR ''{'' # k @ CHR '','' # ?F))"
    using ty by (cases ty) (auto simp: not_space_chars lower_type_def is_alpha_not_space)
  from T have T0: "drop p tex = [] @ (ty @ CHR ''{'' # k @ CHR '','' # ?F)" by simp
  have ea: "skip_while is_space tex p = p"
    by (rule skip_while_drop_to [OF T0]) (use first in simp_all)
  from T have T1: "drop p tex = ty @ (CHR ''{'' # k @ CHR '','' # ?F)" by simp
  have eb: "skip_while is_alpha tex p = ib"
    by (rule skip_while_drop_to [OF T1]) (use ty in \<open>auto simp: lower_type_def not_alpha_chars ib_def\<close>)
  have sl: "slice tex p ib = ty"
    by (rule slice_drop_to [OF T1]) (simp add: ib_def)
  have db: "drop ib tex = CHR ''{'' # k @ CHR '','' # ?F"
    by (rule drop_advance_to [OF T1]) (simp add: ib_def)
  then have db0: "drop ib tex = [] @ (CHR ''{'' # k @ CHR '','' # ?F)" by simp
  have ec: "skip_while is_space tex ib = ib"
    by (rule skip_while_drop_to [OF db0]) (simp_all add: not_space_chars)
  from db have cb: "char_at tex ib = Some (CHR ''{'')" by (rule char_at_drop)
  from db have db1: "drop ib tex = [CHR ''{''] @ (k @ CHR '','' # ?F)" by simp
  have dk: "drop (ib + 1) tex = k @ CHR '','' # ?F"
    by (rule drop_advance_to [OF db1]) simp
  then have dk0: "drop (ib + 1) tex = [] @ (k @ CHR '','' # ?F)" by simp
  have kfirst: "\<not> is_space (hd (k @ CHR '','' # ?F))"
    using k trim_hd_not_space [of k] by (cases k) (auto simp: plain_key_def not_space_chars)
  have ed: "skip_while is_space tex (ib + 1) = ib + 1"
    by (rule skip_while_drop_to [OF dk0]) (use kfirst in simp_all)
  have ee: "skip_while (\<lambda>c. c \<noteq> CHR '','') tex (ib + 1) = ie"
    by (rule skip_while_drop_to [OF dk]) (use k in \<open>auto simp: plain_key_def ie_def\<close>)
  have sk: "slice tex (ib + 1) ie = k"
    by (rule slice_drop_to [OF dk]) (simp add: ie_def)
  have de: "drop ie tex = CHR '','' # ?F"
    by (rule drop_advance_to [OF dk]) (simp add: ie_def)
  then have ce: "char_at tex ie = Some (CHR '','')" by (rule char_at_drop)
  from de have de1: "drop ie tex = [CHR '',''] @ ?F" by simp
  have "drop (ie + 1) tex = [] @ fields_text nvs @ CHR 0x0A # CHR ''}'' # post"
    by (rule drop_advance_to [OF de1, THEN trans]) simp_all
  from parse_fields_all [OF nvs this, of "[]"]
  have pf: "parse_fields tex (ie + 1) [] = (ie + 1 + length (fields_text nvs) + 2, braced nvs [])"
    by simp
  from k have tk: "trim k = k" by (simp add: plain_key_def)
  have pos: "ie + 1 + length (fields_text nvs) + 2
      = p + length ty + 1 + length k + 1 + length (fields_text nvs) + 2"
    by (simp add: ie_def ib_def)
  have "parse_record tex p
      = (ie + 1 + length (fields_text nvs) + 2, Some \<lparr>type = ty, key = k, efields = braced nvs []\<rparr>)"
    unfolding parse_record_def Let_def ea eb sl ec
    using ed ee sk pf
    by (simp add: cb ce tk toLowerCase_lower_type [OF ty])
  then show ?thesis by (simp only: pos)
qed

lemma join_concat: "join sep (x # xs) = x @ concat (map (\<lambda>l. sep @ l) xs)"
  by (induction xs arbitrary: x) auto

lemma entry_chunk_text:
  "entry_chunk e = CHR ''@'' # type e @ CHR ''{'' # key e @ CHR '','' #
     fields_text (sorted_fields e) @ [CHR 0x0A, CHR ''}'']"
  by (simp add: entry_chunk_def join_concat fields_text_def sorted_fields_def field_text_def
      comp_def)

lemma writeCleanBib_body: "writeCleanBib es = body es"
proof (induction es)
  case Nil
  show ?case by (simp add: writeCleanBib_def)
next
  case (Cons e es)
  then show ?case
    by (cases es) (simp_all add: writeCleanBib_def)
qed

lemma indexOf_found:
  assumes d: "drop i tex = W @ c # rest" and W: "c \<notin> set W"
  shows "indexOf tex c i = Some (i + length W)"
proof -
  from d have len: "i + length W < length tex"
    by (metis add.commute drop_advance drop_at_length)
  have nth: "\<And>j. j \<le> length W \<Longrightarrow> tex ! (i + j) = (W @ c # rest) ! j"
  proof -
    fix j assume "j \<le> length W"
    with len have "i + j \<le> length tex" by simp
    then have "tex ! (i + j) = drop i tex ! j" by (simp add: nth_drop)
    with d show "tex ! (i + j) = (W @ c # rest) ! j" by simp
  qed
  have "find (\<lambda>j. tex ! j = c) [i ..< length tex] = Some (i + length W)"
    unfolding find_Some_iff
  proof (intro exI [of _ "length W"] conjI allI impI)
    show "length W < length [i ..< length tex]" using len by simp
    show "tex ! ([i ..< length tex] ! length W) = c" using len nth [of "length W"] by simp
    show "i + length W = [i ..< length tex] ! length W" using len by simp
    fix j assume j: "j < length W"
    with len nth [of j] have "tex ! ([i ..< length tex] ! j) = W ! j" by (simp add: nth_append)
    with j W show "tex ! ([i ..< length tex] ! j) \<noteq> c" by (metis nth_mem)
  qed
  then show ?thesis by (simp add: indexOf_def)
qed

lemma indexOf_not_found:
  assumes d: "drop i tex = W" and W: "c \<notin> set W"
  shows "indexOf tex c i = None"
proof -
  have "\<And>j. i \<le> j \<Longrightarrow> j < length tex \<Longrightarrow> tex ! j \<noteq> c"
  proof -
    fix j assume j: "i \<le> j" "j < length tex"
    then have "tex ! j = drop i tex ! (j - i)" by (simp add: nth_drop)
    moreover from j have "j - i < length (drop i tex)" by simp
    ultimately show "tex ! j \<noteq> c" using d W by (metis nth_mem)
  qed
  then show ?thesis by (auto simp: indexOf_def find_None_iff)
qed

lemma set_array_sort: "set (array_sort cmp xs) = set xs"
  using mset_array_sort [of cmp xs] by (metis set_mset_mset)

lemma fld_in_fields:
  assumes "n \<in> fst ` set (efields e)"
  shows "(n, fld e n) \<in> set (efields e)"
proof -
  from assms have "n \<in> dom (map_of (efields e))" by (simp add: dom_map_of_conv_image_fst)
  then obtain v where v: "map_of (efields e) n = Some v" by blast
  then have "(n, v) \<in> set (efields e)" by (rule map_of_SomeD)
  with v show ?thesis by (simp add: fld_def)
qed

lemma shaped_sorted_fields:
  assumes "shaped e"
  shows "\<forall>nv \<in> set (sorted_fields e). lower_name (fst nv) \<and> brace_free (snd nv)"
proof
  fix nv assume "nv \<in> set (sorted_fields e)"
  then obtain n where n: "n \<in> fst ` set (efields e)" and nv: "nv = (n, fld e n)"
    by (auto simp: sorted_fields_def set_array_sort)
  from fld_in_fields [OF n] have "(n, fld e n) \<in> set (efields e)" .
  with assms nv show "lower_name (fst nv) \<and> brace_free (snd nv)"
    unfolding shaped_def by blast
qed

lemma parse_loop_body:
  assumes "\<forall>e \<in> set es. shaped e" and "drop i tex = W @ body es" and "CHR ''@'' \<notin> set W"
  shows "parse_loop tex i acc = Some (acc @ map parsed es)"
  using assms
proof (induction es arbitrary: i W acc)
  case Nil
  then have "indexOf tex (CHR ''@'') i = None"
    by (intro indexOf_not_found [of i tex "W @ [CHR 0x0A]"]) auto
  then show ?case by (subst parse_loop.simps) simp
next
  case (Cons e es)
  let ?sep = "if es = [] then [] else [CHR 0x0A, CHR 0x0A]"
  let ?post = "?sep @ body es"
  let ?nvs = "sorted_fields e"
  let ?rec = "type e @ CHR ''{'' # key e @ CHR '','' # fields_text ?nvs @ CHR 0x0A # CHR ''}'' # ?post"
  from Cons.prems(2) have d: "drop i tex = W @ CHR ''@'' # ?rec"
    by (simp add: entry_chunk_text)
  then have lt: "i < length tex" by (cases W) (auto dest: drop_at_length)
  from indexOf_found [OF d Cons.prems(3)]
  have ix: "indexOf tex (CHR ''@'') i = Some (i + length W)" .
  from d have d': "drop i tex = (W @ [CHR ''@'']) @ ?rec" by simp
  define at where "at = i + length W"
  have dr: "drop (at + 1) tex = ?rec"
    by (rule drop_advance_to [OF d']) (simp add: at_def)
  from Cons.prems(1) have sh: "shaped e" by simp
  then have ty: "lower_type (type e)" and k: "plain_key (key e)" by (simp_all add: shaped_def)
  define i' where "i' = at + 1 + length (type e) + 1 + length (key e) + 1 + length (fields_text ?nvs) + 2"
  from parse_record_chunk [OF dr ty k shaped_sorted_fields [OF sh]]
  have pr: "parse_record tex (at + 1) = (i', Some (parsed e))"
    by (simp add: parsed_def i'_def)
  from dr have "drop (at + 1) tex
      = (type e @ CHR ''{'' # key e @ CHR '','' # fields_text ?nvs @ [CHR 0x0A, CHR ''}'']) @ ?post"
    by simp
  from drop_advance_to [OF this, of i'] have dp: "drop i' tex = ?sep @ body es"
    by (simp add: i'_def)
  from Cons.prems(1) have rest: "\<forall>e \<in> set es. shaped e" by simp
  have "parse_loop tex i' (acc @ [parsed e]) = Some ((acc @ [parsed e]) @ map parsed es)"
    by (rule Cons.IH [OF rest dp]) simp
  with lt ix pr show ?case
    by (subst parse_loop.simps) (simp add: at_def)
qed

lemma parseBib_writeCleanBib:
  "\<forall>e \<in> set es. shaped e \<Longrightarrow> parseBib (writeCleanBib es) = Some (map parsed es)"
  unfolding parseBib_def writeCleanBib_body
  using parse_loop_body [of es 0 "body es" "[]" "[]"] by simp

lemma trim_id:
  assumes "v = [] \<or> (\<not> is_space (hd v) \<and> \<not> is_space (last v))"
  shows "trim v = v"
proof (cases v)
  case Nil
  then show ?thesis by (simp add: trim_def)
next
  case (Cons x xs)
  with assms have h: "\<not> is_space (hd v)" and l: "\<not> is_space (last v)" by simp_all
  from Cons h have a: "dropWhile is_space v = v" by simp
  from Cons have "rev v \<noteq> []" by simp
  then obtain y ys where r: "rev v = y # ys" by (cases "rev v") auto
  from Cons have "hd (rev v) = last v" by (simp add: hd_rev)
  with r l have "\<not> is_space y" by simp
  with r have "dropWhile is_space (rev v) = rev v" by simp
  with a show ?thesis by (simp add: trim_def)
qed

lemma collapse_spaces_id:
  "\<forall>c \<in> set v. is_space c \<longrightarrow> c = CHR '' '' \<Longrightarrow> \<not> adjacent (CHR '' '') (CHR '' '') v
     \<Longrightarrow> collapse_spaces v = v"
proof (induction v rule: collapse_spaces.induct)
  case 1
  show ?case by simp
next
  case (2 c rest)
  from "2.prems" have all: "\<forall>d \<in> set rest. is_space d \<longrightarrow> d = CHR '' ''" by simp
  from "2.prems"(2) have adj: "\<not> adjacent (CHR '' '') (CHR '' '') rest" by (cases rest) auto
  show ?case
  proof (cases "is_space c")
    case True
    with "2.prems"(1) have c: "c = CHR '' ''" by simp
    have dw: "dropWhile is_space rest = rest"
    proof (cases rest)
      case Nil
      then show ?thesis by simp
    next
      case (Cons y ys)
      with "2.prems"(2) c have "y \<noteq> CHR '' ''" by auto
      with all Cons have "\<not> is_space y" by auto
      with Cons show ?thesis by simp
    qed
    from "2.IH"(1) [OF True] all adj dw have "collapse_spaces rest = rest" by simp
    with True c dw show ?thesis by simp
  next
    case False
    from "2.IH"(2) [OF False all adj] False show ?thesis by simp
  qed
qed

lemma replace_escape_id: "\<not> adjacent (CHR 0x5C) c v \<Longrightarrow> replace_escape c v = v"
  by (induction c v rule: replace_escape.induct) auto

lemma strip_braces_id: "v = [] \<or> hd v \<noteq> CHR ''{'' \<Longrightarrow> strip_braces v = v"
  by (subst strip_braces.simps) auto

lemma normalized_value_trim:
  assumes "normalized_value v"
  shows "trim v = v"
proof (rule trim_id)
  from assms have ne: "v \<noteq> []" and sp: "\<forall>c \<in> set v. is_space c \<longrightarrow> c = CHR '' ''"
    and h: "hd v \<noteq> CHR '' ''" and l: "last v \<noteq> CHR '' ''"
    by (simp_all add: normalized_value_def)
  from ne have "hd v \<in> set v" "last v \<in> set v" by simp_all
  with sp h l show "v = [] \<or> (\<not> is_space (hd v) \<and> \<not> is_space (last v))" by blast
qed

lemma bibToText_braced:
  assumes n: "normalized_value v" and e: "escape_free v"
  shows "bibToText (CHR ''{'' # v @ [CHR ''}'']) = v"
proof -
  from n have ne: "v \<noteq> []" and b: "CHR ''{'' \<notin> set v" "CHR ''}'' \<notin> set v"
    and sp: "\<forall>c \<in> set v. is_space c \<longrightarrow> c = CHR '' ''"
    and adj: "\<not> adjacent (CHR '' '') (CHR '' '') v"
    by (simp_all add: normalized_value_def)
  from ne b have hd: "hd v \<noteq> CHR ''{''" by (cases v) auto
  have t: "trim v = v" using n by (rule normalized_value_trim)
  have "strip_braces (CHR ''{'' # v @ [CHR ''}'']) = strip_braces (trim v)"
    by (subst strip_braces.simps) simp
  also have "\<dots> = v" using hd by (simp add: t strip_braces_id)
  finally have s: "strip_braces (trim (CHR ''{'' # v @ [CHR ''}''])) = v"
    by (simp only: trim_braced)
  from b have f: "filter (\<lambda>c. c \<noteq> CHR ''{'' \<and> c \<noteq> CHR ''}'') v = v"
    by (auto simp: filter_id_conv)
  from e have r: "replace_escape (CHR ''%'') (replace_escape (CHR '','') (replace_escape (CHR ''&'') v)) = v"
    by (simp add: escape_free_def replace_escape_id)
  have c: "collapse_spaces v = v" using sp adj by (rule collapse_spaces_id)
  show ?thesis unfolding bibToText_def s f r c t by simp
qed

lemma update_fresh: "name \<notin> fst ` set fs \<Longrightarrow> AList.update name v fs = fs @ [(name, v)]"
  by (induction fs) auto

lemma obj_set_fresh:
  "name \<noteq> ''__proto__'' \<Longrightarrow> name \<notin> fst ` set fs \<Longrightarrow> obj_set fs name v = fs @ [(name, v)]"
  by (simp add: obj_set_def update_fresh)

lemma braced_fresh:
  "distinct (map fst nvs) \<Longrightarrow> ''__proto__'' \<notin> fst ` set nvs
     \<Longrightarrow> fst ` set nvs \<inter> fst ` set fs = {}
     \<Longrightarrow> braced nvs fs = fs @ map (\<lambda>nv. (fst nv, CHR ''{'' # snd nv @ [CHR ''}''])) nvs"
proof (induction nvs arbitrary: fs)
  case Nil
  show ?case by (simp add: braced_def)
next
  case (Cons nv nvs)
  let ?fs = "fs @ [(fst nv, CHR ''{'' # snd nv @ [CHR ''}''])]"
  from Cons.prems have o: "obj_set fs (fst nv) (CHR ''{'' # snd nv @ [CHR ''}'']) = ?fs"
    by (intro obj_set_fresh) auto
  from Cons.prems have "braced nvs ?fs = ?fs @ map (\<lambda>nv. (fst nv, CHR ''{'' # snd nv @ [CHR ''}''])) nvs"
    by (intro Cons.IH) auto
  with o show ?case by (simp add: braced_def)
qed

lemma clean_fields_step: "clean_fields dropped fs = foldl (clean_step dropped) [] fs"
proof -
  have "(\<lambda>acc (name, rawValue).
        if name \<in> set dropped then acc
        else (let normalized = bibToText rawValue
              in if normalized = [] then acc else obj_set acc name normalized))
     = clean_step dropped"
    by (intro ext) (auto simp: clean_step_def Let_def)
  then show ?thesis by (simp add: clean_fields_def)
qed

lemma clean_braced:
  "distinct (map fst nvs) \<Longrightarrow> ''__proto__'' \<notin> fst ` set nvs
     \<Longrightarrow> fst ` set nvs \<inter> fst ` set acc = {}
     \<Longrightarrow> \<forall>nv \<in> set nvs. fst nv \<notin> set dropped \<and> normalized_value (snd nv) \<and> escape_free (snd nv)
     \<Longrightarrow> foldl (clean_step dropped) acc (map (\<lambda>nv. (fst nv, CHR ''{'' # snd nv @ [CHR ''}''])) nvs)
         = acc @ nvs"
proof (induction nvs arbitrary: acc)
  case Nil
  show ?case by simp
next
  case (Cons nv nvs)
  from Cons.prems(4) have v: "bibToText (CHR ''{'' # snd nv @ [CHR ''}'']) = snd nv"
    and ne: "snd nv \<noteq> []" and nd: "fst nv \<notin> set dropped"
    by (simp_all add: bibToText_braced normalized_value_def)
  from Cons.prems have "obj_set acc (fst nv) (snd nv) = acc @ [(fst nv, snd nv)]"
    by (intro obj_set_fresh) auto
  with v ne nd have s: "clean_step dropped acc (fst nv, CHR ''{'' # snd nv @ [CHR ''}'']) = acc @ [nv]"
    by (simp add: clean_step_def)
  from Cons.prems have "foldl (clean_step dropped) (acc @ [nv])
       (map (\<lambda>nv. (fst nv, CHR ''{'' # snd nv @ [CHR ''}''])) nvs) = (acc @ [nv]) @ nvs"
    by (intro Cons.IH) auto
  with s show ?case by simp
qed

lemma distinct_array_sort: "distinct (array_sort cmp xs) = distinct xs"
  using mset_array_sort [of cmp xs] by (rule mset_eq_imp_distinct_iff)

lemma map_fst_sorted_fields:
  "map fst (sorted_fields e) = array_sort code_unit_compare (map fst (efields e))"
  by (simp add: sorted_fields_def comp_def)

lemma set_sorted_fields: "set (sorted_fields e) \<subseteq> set (efields e)"
proof
  fix nv assume "nv \<in> set (sorted_fields e)"
  then obtain n where n: "n \<in> fst ` set (efields e)" and nv: "nv = (n, fld e n)"
    by (auto simp: sorted_fields_def set_array_sort)
  from fld_in_fields [OF n] nv show "nv \<in> set (efields e)" by simp
qed

lemma normalized_entry_shaped: "normalized_entry dropped e \<Longrightarrow> shaped e"
  by (simp add: normalized_entry_def shaped_def normalized_value_def brace_free_def)

lemma clean_parsed:
  assumes n: "normalized_entry dropped e"
  shows "clean_entry dropped (parsed e) = canonical_entry e"
proof -
  let ?nvs = "sorted_fields e"
  from n have own: "own_properties (efields e)"
    and vals: "\<forall>nv \<in> set (efields e). fst nv \<notin> set dropped
        \<and> normalized_value (snd nv) \<and> escape_free (snd nv)"
    by (simp_all add: normalized_entry_def)
  from own have d: "distinct (map fst ?nvs)"
    by (simp add: map_fst_sorted_fields distinct_array_sort own_properties_def)
  have "set (map fst ?nvs) = set (map fst (efields e))"
    by (simp only: map_fst_sorted_fields set_array_sort)
  with own have p: "''__proto__'' \<notin> fst ` set ?nvs"
    by (simp add: own_properties_def)
  from vals set_sorted_fields [of e]
  have v: "\<forall>nv \<in> set ?nvs. fst nv \<notin> set dropped \<and> normalized_value (snd nv) \<and> escape_free (snd nv)"
    by blast
  from d p have b: "braced ?nvs [] = map (\<lambda>nv. (fst nv, CHR ''{'' # snd nv @ [CHR ''}''])) ?nvs"
    using braced_fresh [of ?nvs "[]"] by simp
  from d p v have "foldl (clean_step dropped) [] (map (\<lambda>nv. (fst nv, CHR ''{'' # snd nv @ [CHR ''}''])) ?nvs)
      = ?nvs"
    using clean_braced [of ?nvs "[]" dropped] by simp
  with b have "clean_fields dropped (braced ?nvs []) = ?nvs"
    by (simp only: clean_fields_step)
  then show ?thesis by (simp add: clean_entry_def parsed_def canonical_entry_def)
qed

lemma map_of_keys: "map_of (map (\<lambda>n. (n, f n)) xs) k = (if k \<in> set xs then Some (f k) else None)"
  by (induction xs) auto

lemma map_of_sorted_fields: "map_of (sorted_fields e) = map_of (efields e)"
proof
  fix k
  show "map_of (sorted_fields e) k = map_of (efields e) k"
  proof (cases "map_of (efields e) k")
    case None
    then have "k \<notin> fst ` set (efields e)" by (simp add: map_of_eq_None_iff)
    with None show ?thesis by (simp add: sorted_fields_def map_of_keys set_array_sort)
  next
    case (Some v)
    then have "(k, v) \<in> set (efields e)" by (rule map_of_SomeD)
    then have "k \<in> fst ` set (efields e)" by force
    with Some show ?thesis by (simp add: sorted_fields_def map_of_keys set_array_sort fld_def)
  qed
qed

lemma same_canonical_entry: "same_entry (canonical_entry e) e"
  by (simp add: same_entry_def canonical_entry_def map_of_sorted_fields)

lemma fld_canonical_entry: "fld (canonical_entry e) n = fld e n"
  by (simp add: fld_def canonical_entry_def map_of_sorted_fields)

lemma getYear_canonical_entry: "getYear (canonical_entry e) = getYear e"
  by (simp only: getYear_def fld_canonical_entry)

lemma year_number_canonical_entry: "year_number Number (canonical_entry e) = year_number Number e"
  by (simp only: year_number_def getYear_canonical_entry)

lemma compare_canonical_entry:
  "compare_entries Number localeCompare (canonical_entry a) (canonical_entry b)
     = compare_entries Number localeCompare a b"
  by (simp only: compare_entries_def year_number_canonical_entry fld_canonical_entry)

lemma insert_sorted_map:
  "(\<And>a b. cmp (f a) (f b) = cmp' a b)
     \<Longrightarrow> insert_sorted cmp (f x) (map f ys) = map f (insert_sorted cmp' x ys)"
  by (induction ys) auto

lemma array_sort_map:
  "(\<And>a b. cmp (f a) (f b) = cmp' a b) \<Longrightarrow> array_sort cmp (map f xs) = map f (array_sort cmp' xs)"
  by (induction xs) (auto simp: insert_sorted_map)

lemma sorted_fields_canonical_entry: "sorted_fields (canonical_entry e) = sorted_fields e"
proof -
  let ?names = "array_sort code_unit_compare (map fst (efields e))"
  have "sorted_wrt (\<lambda>a b. code_unit_compare a b \<le> 0) ?names"
    by (rule sorted_array_sort) (rule consistent_code_unit_compare)
  then have "array_sort code_unit_compare ?names = ?names" by (rule array_sort_sorted_id)
  then have "array_sort code_unit_compare (map fst (efields (canonical_entry e))) = ?names"
    by (simp add: canonical_entry_def map_fst_sorted_fields)
  then show ?thesis
    unfolding sorted_fields_def [of "canonical_entry e"] fld_canonical_entry
    by (simp add: sorted_fields_def)
qed

lemma entry_chunk_canonical_entry: "entry_chunk (canonical_entry e) = entry_chunk e"
  by (simp add: entry_chunk_text sorted_fields_canonical_entry) (simp add: canonical_entry_def)

lemma writeCleanBib_canonical: "writeCleanBib (map canonical_entry es) = writeCleanBib es"
  by (simp add: writeCleanBib_def comp_def entry_chunk_canonical_entry)

lemma round_trip_normalized:
  assumes "\<forall>e \<in> set E. normalized_entry dropped e"
  shows "\<exists>raw. parseBib (writeCleanBib E) = Some raw
     \<and> cleanEntries dropped Number localeCompare raw
         = map canonical_entry (array_sort (compare_entries Number localeCompare) E)
     \<and> list_all2 same_entry (cleanEntries dropped Number localeCompare raw)
         (array_sort (compare_entries Number localeCompare) E)
     \<and> writeCleanBib (cleanEntries dropped Number localeCompare raw)
         = writeCleanBib (array_sort (compare_entries Number localeCompare) E)"
proof -
  from assms have "\<forall>e \<in> set E. shaped e" by (blast intro: normalized_entry_shaped)
  then have p: "parseBib (writeCleanBib E) = Some (map parsed E)" by (rule parseBib_writeCleanBib)
  from assms have "map (clean_entry dropped) (map parsed E) = map canonical_entry E"
    by (simp add: clean_parsed)
  then have "cleanEntries dropped Number localeCompare (map parsed E)
      = array_sort (compare_entries Number localeCompare) (map canonical_entry E)"
    by (simp only: cleanEntries_def)
  also have "\<dots> = map canonical_entry (array_sort (compare_entries Number localeCompare) E)"
    by (rule array_sort_map) (rule compare_canonical_entry)
  finally have c: "cleanEntries dropped Number localeCompare (map parsed E)
      = map canonical_entry (array_sort (compare_entries Number localeCompare) E)" .
  have s: "list_all2 same_entry
      (map canonical_entry (array_sort (compare_entries Number localeCompare) E))
      (array_sort (compare_entries Number localeCompare) E)"
    by (simp add: list_all2_map1 list_all2_same same_canonical_entry)
  from p c s show ?thesis by (simp add: writeCleanBib_canonical)
qed

subsection \<open>What the parser and the cleaning pass produce\<close>

lemma lower_char_idem: "lower_char (lower_char c) = lower_char c"
proof (cases "(65 \<le> (of_char c :: nat) \<and> (of_char c :: nat) \<le> 90)
    \<or> (192 \<le> (of_char c :: nat) \<and> (of_char c :: nat) \<le> 222 \<and> (of_char c :: nat) \<noteq> 215)")
  case True
  from lower_char_code [OF True] have v: "(of_char (lower_char c) :: nat) = of_char c + 32" .
  show ?thesis
  proof (rule lower_char_other)
    from True v
    show "\<not> ((65 \<le> (of_char (lower_char c) :: nat) \<and> (of_char (lower_char c) :: nat) \<le> 90)
        \<or> (192 \<le> (of_char (lower_char c) :: nat) \<and> (of_char (lower_char c) :: nat) \<le> 222
            \<and> (of_char (lower_char c) :: nat) \<noteq> 215))"
      by (simp only:) linarith
  qed
next
  case False
  then have "lower_char c = c" by (rule lower_char_other)
  then show ?thesis by simp
qed

lemma is_alpha_lower_char: "is_alpha c \<Longrightarrow> is_alpha (lower_char c)"
proof (cases "65 \<le> (of_char c :: nat) \<and> (of_char c :: nat) \<le> 90")
  case True
  then have "(of_char (lower_char c) :: nat) = of_char c + 32" by (intro lower_char_code) simp
  with True show ?thesis by (simp add: is_alpha_def Let_def)
next
  case False
  assume a: "is_alpha c"
  with False have "97 \<le> (of_char c :: nat) \<and> (of_char c :: nat) \<le> 122"
    by (auto simp: is_alpha_def Let_def)
  then have "lower_char c = c" by (intro lower_char_other) linarith
  with a show ?thesis by simp
qed

lemma underscore_code: "(of_char (CHR ''_'') :: nat) = 95" "(of_char (CHR ''-'') :: nat) = 45"
  by simp_all

lemma is_name_char_lower_char: "is_name_char c \<Longrightarrow> is_name_char (lower_char c)"
proof (cases "is_alpha c")
  case True
  then have "is_alpha (lower_char c)" by (rule is_alpha_lower_char)
  then show ?thesis by (simp add: is_name_char_def Let_def)
next
  case False
  assume a: "is_name_char c"
  with False have "(48 \<le> (of_char c :: nat) \<and> (of_char c :: nat) \<le> 57) \<or> c = CHR ''_'' \<or> c = CHR ''-''"
    by (auto simp: is_name_char_def Let_def)
  then have "(of_char c :: nat) < 65 \<or> (of_char c :: nat) = 95" using underscore_code by auto
  then have "lower_char c = c" by (intro lower_char_other) linarith
  with a show ?thesis by simp
qed

lemma skip_while_all: "\<forall>c \<in> set (slice tex i (skip_while P tex i)). P c"
proof (induction P tex i rule: skip_while.induct)
  case (1 P tex i)
  show ?case
  proof (cases "i < length tex \<and> P (tex ! i)")
    case True
    then have s: "skip_while P tex i = skip_while P tex (i + 1)"
      by (subst skip_while.simps) simp
    have "i + 1 \<le> skip_while P tex (i + 1)" by (rule skip_while_ge)
    then have "i < skip_while P tex (i + 1)" by simp
    with True have "slice tex i (skip_while P tex (i + 1))
        = tex ! i # slice tex (i + 1) (skip_while P tex (i + 1))"
      by (intro slice_step) simp_all
    with 1 [OF True] True s show ?thesis by simp
  next
    case False
    then have "skip_while P tex i = i" by (subst skip_while.simps) auto
    then show ?thesis by simp
  qed
qed

lemma lower_type_slice: "lower_type (toLowerCase (slice tex i (skip_while is_alpha tex i)))"
  using skip_while_all [of tex i is_alpha]
  by (auto simp: lower_type_def toLowerCase_def is_alpha_lower_char lower_char_idem)

lemma lower_name_slice: "lower_name (toLowerCase (slice tex i (skip_while is_name_char tex i)))"
  using skip_while_all [of tex i is_name_char]
  by (auto simp: lower_name_def toLowerCase_def is_name_char_lower_char lower_char_idem)

lemma trim_ends: "trim s = [] \<or> (\<not> is_space (hd (trim s)) \<and> \<not> is_space (last (trim s)))"
proof (cases "trim s = []")
  case True
  then show ?thesis by simp
next
  case False
  let ?t = "dropWhile is_space s"
  let ?u = "dropWhile is_space (rev ?t)"
  from False have u: "?u \<noteq> []" by (simp add: trim_def)
  then have hu: "\<not> is_space (hd ?u)" by (rule hd_dropWhile)
  have t: "?t \<noteq> []"
  proof
    assume "?t = []"
    then have "?u = []" by (simp only: rev.simps dropWhile.simps)
    with u show False by simp
  qed
  then have ht: "\<not> is_space (hd ?t)" by (rule hd_dropWhile)
  have "rev ?t = takeWhile is_space (rev ?t) @ ?u" by simp
  with u have "last (rev ?t) = last ?u" by (metis last_appendR)
  with t have lu: "last ?u = hd ?t" by (simp add: last_rev)
  from u have "hd (trim s) = last ?u" "last (trim s) = hd ?u"
    by (simp_all add: trim_def hd_rev last_rev)
  with hu ht lu show ?thesis by simp
qed

lemma trim_idem: "trim (trim s) = trim s"
  by (rule trim_id) (rule trim_ends)

lemma set_trim: "set (trim s) \<subseteq> set s"
proof -
  have "set (trim s) \<subseteq> set (rev (dropWhile is_space s))"
    unfolding trim_def by (metis set_dropWhileD set_rev subsetI)
  also have "\<dots> \<subseteq> set s" by (auto dest: set_dropWhileD)
  finally show ?thesis .
qed

lemma plain_key_slice:
  "plain_key (trim (slice tex i (skip_while (\<lambda>c. c \<noteq> CHR '','') tex i)))"
  using skip_while_all [of tex i "\<lambda>c. c \<noteq> CHR '',''"] set_trim
  by (auto simp: plain_key_def trim_idem)

lemma names_obj_set: "fst ` set (obj_set fs n v) \<subseteq> insert n (fst ` set fs)"
proof (cases "n = ''__proto__''")
  case True
  then show ?thesis by (auto simp: obj_set_def)
next
  case False
  have "set (map fst (AList.update n v fs)) \<subseteq> insert n (set (map fst fs))"
    by (auto simp: update_keys)
  with False show ?thesis by (simp add: obj_set_def)
qed

lemma own_properties_obj_set: "own_properties fs \<Longrightarrow> own_properties (obj_set fs n v)"
proof (cases "n = ''__proto__''")
  case True
  assume "own_properties fs"
  with True show ?thesis by (simp add: obj_set_def)
next
  case False
  assume o: "own_properties fs"
  then have "distinct (map fst (AList.update n v fs))"
    by (simp add: own_properties_def distinct_update)
  moreover from o False have "''__proto__'' \<notin> set (map fst (AList.update n v fs))"
    by (auto simp: own_properties_def update_keys)
  ultimately show ?thesis using False by (simp add: obj_set_def own_properties_def)
qed

lemma named_fields_obj_set:
  assumes "named_fields fs" "lower_name n"
  shows "named_fields (obj_set fs n v)"
proof -
  from assms(1) have "own_properties (obj_set fs n v)"
    by (simp add: named_fields_def own_properties_obj_set)
  moreover have "\<forall>nv \<in> set (obj_set fs n v). lower_name (fst nv)"
  proof
    fix nv assume "nv \<in> set (obj_set fs n v)"
    then have "fst nv \<in> fst ` set (obj_set fs n v)" by simp
    with names_obj_set [of fs n v] have "fst nv = n \<or> fst nv \<in> fst ` set fs" by blast
    with assms show "lower_name (fst nv)" by (auto simp: named_fields_def)
  qed
  ultimately show ?thesis by (simp add: named_fields_def)
qed

lemma named_fields_parse_fields: "named_fields fs \<Longrightarrow> named_fields (snd (parse_fields tex i fs))"
proof (induction tex i fs rule: parse_fields.induct)
  case (1 tex i fs)
  let ?i1 = "skip_while (\<lambda>c. is_space c \<or> c = CHR '','') tex i"
  let ?i2 = "skip_while is_name_char tex ?i1"
  let ?i3 = "skip_while is_space tex ?i2"
  let ?i4 = "skip_while is_space tex (?i3 + 1)"
  let ?name = "toLowerCase (slice tex ?i1 ?i2)"
  show ?case
  proof (cases "i < length tex \<and> char_at tex ?i1 \<noteq> Some (CHR ''}'')
      \<and> char_at tex ?i3 = Some (CHR ''='')")
    case True
    obtain v nxt where r: "readBibValue tex ?i4 = (v, nxt)" by (cases "readBibValue tex ?i4")
    from True r have eq: "parse_fields tex i fs = parse_fields tex nxt (obj_set fs ?name (trim v))"
      by (subst parse_fields.simps) (simp add: Let_def)
    have n: "named_fields (obj_set fs ?name (trim v))"
      using "1.prems" by (rule named_fields_obj_set) (rule lower_name_slice)
    from True r have "named_fields (obj_set fs ?name (trim v))
        \<Longrightarrow> named_fields (snd (parse_fields tex nxt (obj_set fs ?name (trim v))))"
      by (intro "1.IH" [OF _ refl _ refl refl refl _ refl, of _ v]) (auto simp: Let_def)
    with n eq show ?thesis by simp
  next
    case False
    with "1.prems" show ?thesis
      by (subst parse_fields.simps) (auto simp: Let_def)
  qed
qed

lemma named_fields_Nil: "named_fields []"
  by (simp add: named_fields_def own_properties_def)

lemma parsed_shape_parse_record:
  assumes "parse_record tex start = (i, Some e)"
  shows "parsed_shape e"
proof -
  let ?a = "skip_while is_space tex start"
  let ?b = "skip_while is_alpha tex ?a"
  let ?c = "skip_while is_space tex ?b"
  let ?d = "skip_while is_space tex (?c + 1)"
  let ?e = "skip_while (\<lambda>c. c \<noteq> CHR '','') tex ?d"
  obtain j fs where pf: "parse_fields tex (?e + 1) [] = (j, fs)"
    by (cases "parse_fields tex (?e + 1) []")
  from named_fields_parse_fields [OF named_fields_Nil, of tex "?e + 1"] pf
  have nf: "named_fields fs" by simp
  from assms pf have "e = \<lparr>type = toLowerCase (slice tex ?a ?b), key = trim (slice tex ?d ?e),
      efields = fs\<rparr>"
    by (auto simp: parse_record_def Let_def split: if_splits)
  with nf show ?thesis
    by (simp add: parsed_shape_def lower_type_slice plain_key_slice)
qed

lemma parsed_shape_parse_loop:
  "\<forall>e \<in> set acc. parsed_shape e \<Longrightarrow> parse_loop tex i acc = Some es
     \<Longrightarrow> \<forall>e \<in> set es. parsed_shape e"
proof (induction "length tex - i" arbitrary: i acc rule: less_induct)
  case less
  show ?case
  proof (cases "i < length tex")
    case False
    with less.prems(2) have "es = acc" by (subst (asm) parse_loop.simps) simp
    with less.prems(1) show ?thesis by simp
  next
    case True
    show ?thesis
    proof (cases "indexOf tex (CHR ''@'') i")
      case None
      with True less.prems(2) have "es = acc" by (subst (asm) parse_loop.simps) simp
      with less.prems(1) show ?thesis by simp
    next
      case (Some at)
      obtain i' r where pr: "parse_record tex (at + 1) = (i', r)"
        by (cases "parse_record tex (at + 1)")
      from indexOf_Some [OF Some] parse_record_ge [of "at + 1" tex] pr have "i < i'" by simp
      with True have m: "length tex - i' < length tex - i" by simp
      show ?thesis
      proof (cases r)
        case None
        with True Some pr less.prems(2) have "parse_loop tex i' acc = Some es"
          by (subst (asm) parse_loop.simps) simp
        from less.hyps [OF m less.prems(1) this] show ?thesis .
      next
        case (Some e)
        with True \<open>indexOf tex (CHR ''@'') i = Some at\<close> pr less.prems(2)
        have l: "parse_loop tex i' (acc @ [e]) = Some es"
          by (subst (asm) parse_loop.simps) simp
        from pr Some have "parsed_shape e" by (intro parsed_shape_parse_record) simp
        with less.prems(1) have "\<forall>x \<in> set (acc @ [e]). parsed_shape x" by simp
        from less.hyps [OF m this l] show ?thesis .
      qed
    qed
  qed
qed

lemma parsed_shape_parseBib: "parseBib tex = Some raw \<Longrightarrow> \<forall>e \<in> set raw. parsed_shape e"
  unfolding parseBib_def using parsed_shape_parse_loop [of "[]" tex 0 raw] by simp

lemma adjacent_Cons:
  "adjacent a b (x # ys) = ((ys \<noteq> [] \<and> x = a \<and> hd ys = b) \<or> adjacent a b ys)"
  by (cases ys) auto

lemma adjacent_append_right: "adjacent a b ys \<Longrightarrow> adjacent a b (xs @ ys)"
  by (induction xs) (auto simp: adjacent_Cons)

lemma adjacent_append_left: "adjacent a b xs \<Longrightarrow> adjacent a b (xs @ ys)"
proof (induction xs)
  case Nil
  then show ?case by simp
next
  case (Cons x xs)
  then show ?case by (cases xs) (auto simp: adjacent_Cons)
qed

lemma trim_part: "\<exists>p q. s = p @ trim s @ q"
proof -
  let ?t = "dropWhile is_space s"
  have "rev (takeWhile is_space (rev ?t) @ dropWhile is_space (rev ?t)) = rev (rev ?t)"
    by (simp only: takeWhile_dropWhile_id)
  then have "rev (dropWhile is_space (rev ?t)) @ rev (takeWhile is_space (rev ?t)) = ?t"
    by (simp only: rev_append rev_rev_ident)
  then have "?t = trim s @ rev (takeWhile is_space (rev ?t))"
    by (simp only: trim_def)
  moreover have "s = takeWhile is_space s @ ?t" by simp
  ultimately have "s = takeWhile is_space s @ trim s @ rev (takeWhile is_space (rev ?t))"
    by simp
  then show ?thesis by blast
qed

lemma adjacent_trim: "\<not> adjacent a b s \<Longrightarrow> \<not> adjacent a b (trim s)"
proof
  assume n: "\<not> adjacent a b s" and t: "adjacent a b (trim s)"
  from trim_part [of s] obtain p q where s: "s = p @ trim s @ q" by blast
  from t have "adjacent a b (trim s @ q)" by (rule adjacent_append_left)
  then have "adjacent a b (p @ trim s @ q)" by (rule adjacent_append_right)
  with s n show False by simp
qed

lemma set_replace_escape: "set (replace_escape c s) \<subseteq> set s"
  by (induction c s rule: replace_escape.induct) auto

lemma set_collapse_spaces: "set (collapse_spaces s) \<subseteq> insert (CHR '' '') (set s)"
proof (induction s rule: collapse_spaces.induct)
  case 1
  show ?case by simp
next
  case (2 c rest)
  show ?case
  proof (cases "is_space c")
    case True
    from "2.IH"(1) [OF True] have "set (collapse_spaces (dropWhile is_space rest))
        \<subseteq> insert (CHR '' '') (set (dropWhile is_space rest))" .
    also have "\<dots> \<subseteq> insert (CHR '' '') (set rest)" by (auto dest: set_dropWhileD)
    finally show ?thesis using True by auto
  next
    case False
    with "2.IH"(2) [OF False] show ?thesis by auto
  qed
qed

lemma spaces_collapse_spaces: "\<forall>c \<in> set (collapse_spaces s). is_space c \<longrightarrow> c = CHR '' ''"
proof (induction s rule: collapse_spaces.induct)
  case 1
  show ?case by simp
next
  case (2 c rest)
  show ?case
  proof (cases "is_space c")
    case True
    with "2.IH"(1) [OF True] show ?thesis by simp
  next
    case False
    with "2.IH"(2) [OF False] show ?thesis by simp
  qed
qed

lemma hd_collapse_spaces: "s \<noteq> [] \<Longrightarrow> \<not> is_space (hd s) \<Longrightarrow> hd (collapse_spaces s) = hd s"
  by (cases s) auto

lemma collapse_spaces_Nil: "collapse_spaces s = [] \<Longrightarrow> s = []"
  by (cases s) (auto split: if_splits)

lemma adjacent_collapse_spaces: "\<not> adjacent (CHR '' '') (CHR '' '') (collapse_spaces s)"
proof (induction s rule: collapse_spaces.induct)
  case 1
  show ?case by simp
next
  case (2 c rest)
  show ?case
  proof (cases "is_space c")
    case True
    let ?r = "dropWhile is_space rest"
    have "collapse_spaces ?r \<noteq> [] \<Longrightarrow> hd (collapse_spaces ?r) \<noteq> CHR '' ''"
    proof -
      assume "collapse_spaces ?r \<noteq> []"
      have ne: "?r \<noteq> []"
      proof
        assume "?r = []"
        then have "collapse_spaces ?r = []" by (simp only: collapse_spaces.simps)
        with \<open>collapse_spaces ?r \<noteq> []\<close> show False by simp
      qed
      then have ns: "\<not> is_space (hd ?r)" by (rule hd_dropWhile)
      with ne have "hd (collapse_spaces ?r) = hd ?r" by (rule hd_collapse_spaces)
      with ns show ?thesis by (auto simp: is_space_def)
    qed
    with "2.IH"(1) [OF True] True show ?thesis by (auto simp: adjacent_Cons)
  next
    case False
    then have "c \<noteq> CHR '' ''" by (auto simp: is_space_def)
    with "2.IH"(2) [OF False] False show ?thesis by (simp add: adjacent_Cons)
  qed
qed

lemma normalized_value_bibToText:
  assumes "bibToText raw \<noteq> []"
  shows "normalized_value (bibToText raw)"
proof -
  let ?x = "replace_escape (CHR ''%'') (replace_escape (CHR '','')
             (replace_escape (CHR ''&'') (filter (\<lambda>c. c \<noteq> CHR ''{'' \<and> c \<noteq> CHR ''}'')
               (strip_braces (trim raw)))))"
  let ?w = "collapse_spaces ?x"
  from assms have b: "bibToText raw = trim ?w" by (simp add: bibToText_def split: if_splits)
  have "set ?x \<subseteq> set (filter (\<lambda>c. c \<noteq> CHR ''{'' \<and> c \<noteq> CHR ''}'') (strip_braces (trim raw)))"
    using set_replace_escape by (meson subset_trans)
  then have x: "CHR ''{'' \<notin> set ?x \<and> CHR ''}'' \<notin> set ?x" by auto
  with set_collapse_spaces [of ?x] have w: "CHR ''{'' \<notin> set ?w \<and> CHR ''}'' \<notin> set ?w" by auto
  with set_trim [of ?w] have braces: "CHR ''{'' \<notin> set (trim ?w) \<and> CHR ''}'' \<notin> set (trim ?w)"
    by auto
  from spaces_collapse_spaces [of ?x] set_trim [of ?w]
  have sp: "\<forall>c \<in> set (trim ?w). is_space c \<longrightarrow> c = CHR '' ''" by blast
  have adj: "\<not> adjacent (CHR '' '') (CHR '' '') (trim ?w)"
    by (rule adjacent_trim) (rule adjacent_collapse_spaces)
  from assms b have ne: "trim ?w \<noteq> []" by simp
  with trim_ends [of ?w] have "\<not> is_space (hd (trim ?w)) \<and> \<not> is_space (last (trim ?w))" by simp
  then have ends: "hd (trim ?w) \<noteq> CHR '' '' \<and> last (trim ?w) \<noteq> CHR '' ''"
    by (auto simp: is_space_def)
  from ne braces sp adj ends show ?thesis
    unfolding b normalized_value_def by blast
qed

lemma set_update_subset: "set (AList.update k v al) \<subseteq> insert (k, v) (set al)"
  by (induction al) auto

lemma set_obj_set: "set (obj_set fs n v) \<subseteq> insert (n, v) (set fs)"
  using set_update_subset [of n v fs] by (auto simp: obj_set_def)

lemma cleaned_fields_step:
  assumes a: "cleaned_fields dropped acc" and n: "lower_name (fst nr)"
  shows "cleaned_fields dropped (clean_step dropped acc nr)"
proof (cases "fst nr \<in> set dropped \<or> bibToText (snd nr) = []")
  case True
  with a show ?thesis by (auto simp: clean_step_def)
next
  case False
  then have s: "clean_step dropped acc nr = obj_set acc (fst nr) (bibToText (snd nr))"
    by (simp add: clean_step_def)
  from False have v: "normalized_value (bibToText (snd nr))"
    by (intro normalized_value_bibToText) simp
  from a have "own_properties (obj_set acc (fst nr) (bibToText (snd nr)))"
    by (simp add: cleaned_fields_def own_properties_obj_set)
  moreover have "\<forall>nv \<in> set (obj_set acc (fst nr) (bibToText (snd nr))).
      lower_name (fst nv) \<and> fst nv \<notin> set dropped \<and> normalized_value (snd nv)"
  proof
    fix nv assume "nv \<in> set (obj_set acc (fst nr) (bibToText (snd nr)))"
    with set_obj_set have "nv = (fst nr, bibToText (snd nr)) \<or> nv \<in> set acc" by blast
    with a n v False show "lower_name (fst nv) \<and> fst nv \<notin> set dropped \<and> normalized_value (snd nv)"
      by (auto simp: cleaned_fields_def)
  qed
  ultimately show ?thesis by (simp add: s cleaned_fields_def)
qed

lemma cleaned_fields_foldl:
  "cleaned_fields dropped acc \<Longrightarrow> \<forall>nr \<in> set fs. lower_name (fst nr)
     \<Longrightarrow> cleaned_fields dropped (foldl (clean_step dropped) acc fs)"
  by (induction fs arbitrary: acc) (simp_all add: cleaned_fields_step)

lemma cleaned_fields_clean_fields:
  "named_fields fs \<Longrightarrow> cleaned_fields dropped (clean_fields dropped fs)"
  unfolding clean_fields_step
  by (rule cleaned_fields_foldl) (simp_all add: cleaned_fields_def own_properties_def named_fields_def)

lemma normalized_entry_cleanEntries:
  assumes p: "parseBib tex = Some raw"
    and e: "e \<in> set (cleanEntries dropped Number localeCompare raw)"
    and f: "\<forall>nv \<in> set (efields e). escape_free (snd nv)"
  shows "normalized_entry dropped e"
proof -
  from e have "e \<in> set (map (clean_entry dropped) raw)"
    by (simp only: cleanEntries_def set_array_sort)
  then obtain r where r: "r \<in> set raw" and er: "e = clean_entry dropped r" by auto
  from parsed_shape_parseBib [OF p] r have s: "parsed_shape r" by simp
  then have "cleaned_fields dropped (clean_fields dropped (efields r))"
    by (simp add: parsed_shape_def cleaned_fields_clean_fields)
  with er have c: "cleaned_fields dropped (efields e)" by (simp add: clean_entry_def)
  from s er have "lower_type (type e)" "plain_key (key e)"
    by (simp_all add: parsed_shape_def clean_entry_def)
  with c f show ?thesis by (simp add: normalized_entry_def cleaned_fields_def)
qed

lemma cleanEntries_sorted_id:
  assumes c: "consistent_comparator localeCompare"
  shows "array_sort (compare_entries Number localeCompare) (cleanEntries dropped Number localeCompare raw)
     = cleanEntries dropped Number localeCompare raw"
proof -
  have "sorted_wrt (\<lambda>a b. compare_entries Number localeCompare a b \<le> 0)
      (cleanEntries dropped Number localeCompare raw)"
    unfolding cleanEntries_def
    by (rule sorted_array_sort) (rule consistent_compare_entries [OF c])
  then show ?thesis by (rule array_sort_sorted_id)
qed

text \<open>
  Claim C1, amended. Let \<open>E\<close> be a list of normalized entries: entries of the shape that
  the parser produces, with field names outside the denylist, whose values are not empty,
  brace-free, white-space-collapsed (hence on one line) and free of the escape sequences
  \<open>\&\<close>, \<open>\,\<close> and \<open>\%\<close>. Then \<open>parseBib\<close> returns on the text that \<open>writeCleanBib\<close> writes
  for \<open>E\<close>, and \<open>cleanEntries\<close> of the entries read is \<open>E\<close> in the order of the Entry
  Orderer, each entry with its fields listed by ascending name: entry by entry the same
  type, the same key and the same value for every field name; writing the result again
  gives the text that \<open>writeCleanBib\<close> writes for the ordered \<open>E\<close>. Every entry that
  \<open>cleanEntries\<close> makes of parsed text is normalized in this sense as soon as its values are
  free of the three escape sequences. So for every text whose cleaned entries have values
  free of them, and every consistent \<open>localeCompare\<close>, reading back and cleaning what
  \<open>writeCleanBib\<close> writes for the cleaned entries gives the same entries in the same order,
  and the same written text. This holds for the denylist of either script and for every
  \<open>Number\<close>.
\<close>

theorem writeCleanBib_round_trip:
  "((\<forall>e \<in> set E. normalized_entry dropped e) \<longrightarrow>
      (\<exists>raw. parseBib (writeCleanBib E) = Some raw
         \<and> cleanEntries dropped Number localeCompare raw
             = map canonical_entry (array_sort (compare_entries Number localeCompare) E)
         \<and> list_all2 same_entry (cleanEntries dropped Number localeCompare raw)
             (array_sort (compare_entries Number localeCompare) E)
         \<and> writeCleanBib (cleanEntries dropped Number localeCompare raw)
             = writeCleanBib (array_sort (compare_entries Number localeCompare) E)))
   \<and> (parseBib tex = Some source \<and> e \<in> set (cleanEntries dropped Number localeCompare source)
        \<and> (\<forall>nv \<in> set (efields e). escape_free (snd nv))
      \<longrightarrow> normalized_entry dropped e)
   \<and> (consistent_comparator localeCompare \<and> parseBib tex = Some source
        \<and> (\<forall>e \<in> set (cleanEntries dropped Number localeCompare source).
              \<forall>nv \<in> set (efields e). escape_free (snd nv))
      \<longrightarrow> (\<exists>raw. parseBib (writeCleanBib (cleanEntries dropped Number localeCompare source)) = Some raw
             \<and> list_all2 same_entry (cleanEntries dropped Number localeCompare raw)
                 (cleanEntries dropped Number localeCompare source)
             \<and> writeCleanBib (cleanEntries dropped Number localeCompare raw)
                 = writeCleanBib (cleanEntries dropped Number localeCompare source)))"
proof (intro conjI impI)
  assume "\<forall>e \<in> set E. normalized_entry dropped e"
  then show "\<exists>raw. parseBib (writeCleanBib E) = Some raw
         \<and> cleanEntries dropped Number localeCompare raw
             = map canonical_entry (array_sort (compare_entries Number localeCompare) E)
         \<and> list_all2 same_entry (cleanEntries dropped Number localeCompare raw)
             (array_sort (compare_entries Number localeCompare) E)
         \<and> writeCleanBib (cleanEntries dropped Number localeCompare raw)
             = writeCleanBib (array_sort (compare_entries Number localeCompare) E)"
    by (rule round_trip_normalized)
next
  assume "parseBib tex = Some source \<and> e \<in> set (cleanEntries dropped Number localeCompare source)
        \<and> (\<forall>nv \<in> set (efields e). escape_free (snd nv))"
  then show "normalized_entry dropped e"
    using normalized_entry_cleanEntries [of tex source e dropped Number localeCompare] by blast
next
  let ?E = "cleanEntries dropped Number localeCompare source"
  assume a: "consistent_comparator localeCompare \<and> parseBib tex = Some source
        \<and> (\<forall>e \<in> set ?E. \<forall>nv \<in> set (efields e). escape_free (snd nv))"
  then have n: "\<forall>e \<in> set ?E. normalized_entry dropped e"
    using normalized_entry_cleanEntries [of tex source _ dropped Number localeCompare] by blast
  from a have s: "array_sort (compare_entries Number localeCompare) ?E = ?E"
    by (intro cleanEntries_sorted_id) simp
  from round_trip_normalized [OF n, of Number localeCompare]
  show "\<exists>raw. parseBib (writeCleanBib ?E) = Some raw
             \<and> list_all2 same_entry (cleanEntries dropped Number localeCompare raw) ?E
             \<and> writeCleanBib (cleanEntries dropped Number localeCompare raw) = writeCleanBib ?E"
    unfolding s by blast
qed

text \<open>
  Claim C1 as stated fails. The text \<open>@article{k, title = {\\&}}\<close> is cleaned to an entry
  whose title is \<open>\&\<close>: a value that is not empty, brace-free and collapsed, under a name
  outside the denylist. \<open>writeCleanBib\<close> writes it as it is, and reading the text back
  gives the title \<open>&\<close>, since \<open>bibToText\<close> expands the sequence once more.
\<close>

theorem writeCleanBib_round_trip_counterexample:
  "parseBib (''@article{k, title = {'' @ [CHR 0x5C, CHR 0x5C, CHR ''&''] @ ''}}'')
     = Some [\<lparr>type = ''article'', key = ''k'',
              efields = [(''title'', ''{'' @ [CHR 0x5C, CHR 0x5C, CHR ''&''] @ ''}'')]\<rparr>]
   \<and> cleanEntries DROP_FIELDS digits_number code_unit_compare
       [\<lparr>type = ''article'', key = ''k'',
         efields = [(''title'', ''{'' @ [CHR 0x5C, CHR 0x5C, CHR ''&''] @ ''}'')]\<rparr>]
     = [\<lparr>type = ''article'', key = ''k'', efields = [(''title'', [CHR 0x5C, CHR ''&''])]\<rparr>]
   \<and> normalized_value [CHR 0x5C, CHR ''&'']
   \<and> ''title'' \<notin> set DROP_FIELDS
   \<and> writeCleanBib
       [\<lparr>type = ''article'', key = ''k'', efields = [(''title'', [CHR 0x5C, CHR ''&''])]\<rparr>]
     = ''@article{k,'' @ [CHR 0x0A] @ ''  title = {'' @ [CHR 0x5C, CHR ''&''] @ ''},''
       @ [CHR 0x0A] @ ''}'' @ [CHR 0x0A]
   \<and> parseBib (writeCleanBib
       [\<lparr>type = ''article'', key = ''k'', efields = [(''title'', [CHR 0x5C, CHR ''&''])]\<rparr>])
     = Some [\<lparr>type = ''article'', key = ''k'',
              efields = [(''title'', ''{'' @ [CHR 0x5C, CHR ''&''] @ ''}'')]\<rparr>]
   \<and> cleanEntries DROP_FIELDS digits_number code_unit_compare
       [\<lparr>type = ''article'', key = ''k'',
         efields = [(''title'', ''{'' @ [CHR 0x5C, CHR ''&''] @ ''}'')]\<rparr>]
     = [\<lparr>type = ''article'', key = ''k'', efields = [(''title'', ''&'')]\<rparr>]
   \<and> [\<lparr>type = ''article'', key = ''k'', efields = [(''title'', ''&'')]\<rparr>]
     \<noteq> [\<lparr>type = ''article'', key = ''k'', efields = [(''title'', [CHR 0x5C, CHR ''&''])]\<rparr>]
   \<and> map_of (efields \<lparr>type = ''article'', key = ''k'', efields = [(''title'', ''&'')]\<rparr>) ''title''
     \<noteq> map_of (efields \<lparr>type = ''article'', key = ''k'',
          efields = [(''title'', [CHR 0x5C, CHR ''&''])]\<rparr>) ''title''"
  by code_simp

theorem writeCleanBib_round_trip_witness:
  "list_all (normalized_entry DROP_FIELDS)
     [\<lparr>type = ''article'', key = ''k1'',
        efields = [(''author'', ''Doe, Jane and Smith, John''), (''title'', ''T & U''), (''year'', ''2020'')]\<rparr>,
      \<lparr>type = ''patent'', key = ''k2'',
        efields = [(''number'', ''US1''), (''title'', ''A''), (''year'', ''2019'')]\<rparr>]
   \<and> (\<exists>raw. parseBib (writeCleanBib
     [\<lparr>type = ''article'', key = ''k1'',
        efields = [(''author'', ''Doe, Jane and Smith, John''), (''title'', ''T & U''), (''year'', ''2020'')]\<rparr>,
      \<lparr>type = ''patent'', key = ''k2'',
        efields = [(''number'', ''US1''), (''title'', ''A''), (''year'', ''2019'')]\<rparr>]) = Some raw
       \<and> cleanEntries DROP_FIELDS digits_number code_unit_compare raw =
     [\<lparr>type = ''article'', key = ''k1'',
        efields = [(''author'', ''Doe, Jane and Smith, John''), (''title'', ''T & U''), (''year'', ''2020'')]\<rparr>,
      \<lparr>type = ''patent'', key = ''k2'',
        efields = [(''number'', ''US1''), (''title'', ''A''), (''year'', ''2019'')]\<rparr>])
   \<and> list_all (normalized_entry DROP_FIELDS)
     [\<lparr>type = ''misc'', key = ''k3'', efields = [(''title'', ''B''), (''note'', ''n'')]\<rparr>,
      \<lparr>type = ''misc'', key = ''k4'', efields = [(''year'', ''2021'')]\<rparr>]
   \<and> (\<exists>raw. parseBib (writeCleanBib
     [\<lparr>type = ''misc'', key = ''k3'', efields = [(''title'', ''B''), (''note'', ''n'')]\<rparr>,
      \<lparr>type = ''misc'', key = ''k4'', efields = [(''year'', ''2021'')]\<rparr>]) = Some raw
       \<and> cleanEntries DROP_FIELDS digits_number code_unit_compare raw =
     [\<lparr>type = ''misc'', key = ''k4'', efields = [(''year'', ''2021'')]\<rparr>,
      \<lparr>type = ''misc'', key = ''k3'', efields = [(''note'', ''n''), (''title'', ''B'')]\<rparr>])
   \<and> consistent_comparator code_unit_compare
   \<and> parseBib ''@Article{k1, Title = {T {U}}, year = 2020, author = {Doe,  Jane}, file = {a.pdf}} @patent{k2, year = {2019}, title = {A}, number = {US1}}''
     = Some
     [\<lparr>type = ''article'', key = ''k1'',
        efields = [(''title'', ''{T {U}}''), (''year'', ''2020''), (''author'', ''{Doe,  Jane}''),
                   (''file'', ''{a.pdf}'')]\<rparr>,
      \<lparr>type = ''patent'', key = ''k2'',
        efields = [(''year'', ''{2019}''), (''title'', ''{A}''), (''number'', ''{US1}'')]\<rparr>]
   \<and> cleanEntries DROP_FIELDS digits_number code_unit_compare
     [\<lparr>type = ''article'', key = ''k1'',
        efields = [(''title'', ''{T {U}}''), (''year'', ''2020''), (''author'', ''{Doe,  Jane}''),
                   (''file'', ''{a.pdf}'')]\<rparr>,
      \<lparr>type = ''patent'', key = ''k2'',
        efields = [(''year'', ''{2019}''), (''title'', ''{A}''), (''number'', ''{US1}'')]\<rparr>]
     =
     [\<lparr>type = ''article'', key = ''k1'',
        efields = [(''title'', ''T U''), (''year'', ''2020''), (''author'', ''Doe, Jane'')]\<rparr>,
      \<lparr>type = ''patent'', key = ''k2'',
        efields = [(''year'', ''2019''), (''title'', ''A''), (''number'', ''US1'')]\<rparr>]
   \<and> list_all (\<lambda>e. list_all (\<lambda>nv. escape_free (snd nv)) (efields e))
     [\<lparr>type = ''article'', key = ''k1'',
        efields = [(''title'', ''T U''), (''year'', ''2020''), (''author'', ''Doe, Jane'')]\<rparr>,
      \<lparr>type = ''patent'', key = ''k2'',
        efields = [(''year'', ''2019''), (''title'', ''A''), (''number'', ''US1'')]\<rparr>]
   \<and> normalized_entry DROP_FIELDS
     \<lparr>type = ''article'', key = ''k1'',
        efields = [(''title'', ''T U''), (''year'', ''2020''), (''author'', ''Doe, Jane'')]\<rparr>
   \<and> (\<exists>raw. parseBib (writeCleanBib
     [\<lparr>type = ''article'', key = ''k1'',
        efields = [(''title'', ''T U''), (''year'', ''2020''), (''author'', ''Doe, Jane'')]\<rparr>,
      \<lparr>type = ''patent'', key = ''k2'',
        efields = [(''year'', ''2019''), (''title'', ''A''), (''number'', ''US1'')]\<rparr>]) = Some raw
       \<and> list_all2 same_entry (cleanEntries DROP_FIELDS digits_number code_unit_compare raw)
     [\<lparr>type = ''article'', key = ''k1'',
        efields = [(''title'', ''T U''), (''year'', ''2020''), (''author'', ''Doe, Jane'')]\<rparr>,
      \<lparr>type = ''patent'', key = ''k2'',
        efields = [(''year'', ''2019''), (''title'', ''A''), (''number'', ''US1'')]\<rparr>]
       \<and> writeCleanBib (cleanEntries DROP_FIELDS digits_number code_unit_compare raw) = writeCleanBib
     [\<lparr>type = ''article'', key = ''k1'',
        efields = [(''title'', ''T U''), (''year'', ''2020''), (''author'', ''Doe, Jane'')]\<rparr>,
      \<lparr>type = ''patent'', key = ''k2'',
        efields = [(''year'', ''2019''), (''title'', ''A''), (''number'', ''US1'')]\<rparr>])"
proof -
  let ?E = "[\<lparr>type = ''article'', key = ''k1'',
        efields = [(''author'', ''Doe, Jane and Smith, John''), (''title'', ''T & U''), (''year'', ''2020'')]\<rparr>,
      \<lparr>type = ''patent'', key = ''k2'',
        efields = [(''number'', ''US1''), (''title'', ''A''), (''year'', ''2019'')]\<rparr>]"
  let ?F = "[\<lparr>type = ''misc'', key = ''k3'', efields = [(''title'', ''B''), (''note'', ''n'')]\<rparr>,
      \<lparr>type = ''misc'', key = ''k4'', efields = [(''year'', ''2021'')]\<rparr>]"
  let ?F' = "[\<lparr>type = ''misc'', key = ''k4'', efields = [(''year'', ''2021'')]\<rparr>,
      \<lparr>type = ''misc'', key = ''k3'', efields = [(''note'', ''n''), (''title'', ''B'')]\<rparr>]"
  let ?tex = "''@Article{k1, Title = {T {U}}, year = 2020, author = {Doe,  Jane}, file = {a.pdf}} @patent{k2, year = {2019}, title = {A}, number = {US1}}''"
  let ?src = "[\<lparr>type = ''article'', key = ''k1'',
        efields = [(''title'', ''{T {U}}''), (''year'', ''2020''), (''author'', ''{Doe,  Jane}''),
                   (''file'', ''{a.pdf}'')]\<rparr>,
      \<lparr>type = ''patent'', key = ''k2'',
        efields = [(''year'', ''{2019}''), (''title'', ''{A}''), (''number'', ''{US1}'')]\<rparr>]"
  let ?G = "[\<lparr>type = ''article'', key = ''k1'',
        efields = [(''title'', ''T U''), (''year'', ''2020''), (''author'', ''Doe, Jane'')]\<rparr>,
      \<lparr>type = ''patent'', key = ''k2'',
        efields = [(''year'', ''2019''), (''title'', ''A''), (''number'', ''US1'')]\<rparr>]"
  let ?g = "\<lparr>type = ''article'', key = ''k1'',
        efields = [(''title'', ''T U''), (''year'', ''2020''), (''author'', ''Doe, Jane'')]\<rparr>"
  let ?sort = "array_sort (compare_entries digits_number code_unit_compare)"
  have l: "list_all (normalized_entry DROP_FIELDS) ?E" by code_simp
  then have h: "\<forall>e \<in> set ?E. normalized_entry DROP_FIELDS e" by (simp only: list_all_iff)
  have l': "list_all (normalized_entry DROP_FIELDS) ?F" by code_simp
  then have h': "\<forall>e \<in> set ?F. normalized_entry DROP_FIELDS e" by (simp only: list_all_iff)
  have s: "map canonical_entry (?sort ?E) = ?E" by code_simp
  have s': "map canonical_entry (?sort ?F) = ?F'" by code_simp
  have p: "parseBib ?tex = Some ?src" by code_simp
  have c: "cleanEntries DROP_FIELDS digits_number code_unit_compare ?src = ?G" by code_simp
  have f: "list_all (\<lambda>e. list_all (\<lambda>nv. escape_free (snd nv)) (efields e)) ?G" by code_simp
  then have f': "\<forall>e \<in> set ?G. \<forall>nv \<in> set (efields e). escape_free (snd nv)"
    by (simp only: list_all_iff)
  have m: "?g \<in> set ?G" by simp
  note cc = consistent_code_unit_compare
  from writeCleanBib_round_trip [where E = ?E and dropped = DROP_FIELDS
      and Number = digits_number and localeCompare = code_unit_compare] h
  have a: "\<exists>raw. parseBib (writeCleanBib ?E) = Some raw \<and> cleanEntries DROP_FIELDS digits_number code_unit_compare raw = ?E"
    unfolding s by blast
  from writeCleanBib_round_trip [where E = ?F and dropped = DROP_FIELDS
      and Number = digits_number and localeCompare = code_unit_compare] h'
  have b: "\<exists>raw. parseBib (writeCleanBib ?F) = Some raw \<and> cleanEntries DROP_FIELDS digits_number code_unit_compare raw = ?F'"
    unfolding s' by blast
  from writeCleanBib_round_trip [where dropped = DROP_FIELDS and Number = digits_number
      and localeCompare = code_unit_compare and tex = ?tex and source = ?src and e = ?g]
    p f' m
  have n: "normalized_entry DROP_FIELDS ?g"
    unfolding c by blast
  from writeCleanBib_round_trip [where dropped = DROP_FIELDS and Number = digits_number
      and localeCompare = code_unit_compare and tex = ?tex and source = ?src] cc p f'
  have r: "\<exists>raw. parseBib (writeCleanBib ?G) = Some raw
       \<and> list_all2 same_entry (cleanEntries DROP_FIELDS digits_number code_unit_compare raw) ?G
       \<and> writeCleanBib (cleanEntries DROP_FIELDS digits_number code_unit_compare raw) = writeCleanBib ?G"
    unfolding c by blast
  from l a l' b cc p c f n r show ?thesis by blast
qed

end
